theory Spec2Isabelle
  imports Complex_Main "HOL-Library.Log_Nat"
begin

section \<open>Python values used by the analyzer\<close>

text \<open>
  The exceptions that the modelled statements of \<^verbatim>\<open>website_traffic_analyzer.py\<close> can raise.
  \<open>IOError\<close> stands for whatever \<^verbatim>\<open>pd.read_csv\<close> raises on a missing or malformed file.
\<close>

datatype py_error = ValueError | KeyError | IndexError | ZeroDivisionError | AttributeError | IOError

subsection \<open>Floating point\<close>

text \<open>
  A finite double is represented by the rational number it denotes. \<open>fl\<close> rounds a
  rational to the nearest double (53-bit significand, ties to even). The exponent range
  is not bounded: the analyzer only handles counts, seconds and percentages, far from
  overflow and from subnormal numbers.
\<close>

definition float_exponent :: "rat \<Rightarrow> int" where
  "float_exponent x =
     (if 1 \<le> x then int (floorlog 2 (nat \<lfloor>x\<rfloor>)) - 1
      else - int (floorlog 2 (nat (\<lceil>1 / x\<rceil> - 1))))"

definition round_half_even :: "rat \<Rightarrow> int" where
  "round_half_even x =
     (let f = \<lfloor>x\<rfloor>; r = x - of_int f
      in if r < 1 / 2 then f else if 1 / 2 < r then f + 1 else if even f then f else f + 1)"

definition fl :: "rat \<Rightarrow> rat" where
  "fl x =
     (if x = 0 then 0
      else let u = power_int 2 (float_exponent \<bar>x\<bar> - 52)
           in sgn x * of_int (round_half_even (\<bar>x\<bar> / u)) * u)"

definition fmul :: "rat \<Rightarrow> rat \<Rightarrow> rat" where
  "fmul a b = fl (a * b)"

text \<open>Python's \<^verbatim>\<open>a / b\<close> on two \<^verbatim>\<open>int\<close>s: correctly rounded, raising on a zero divisor.\<close>

definition py_truediv :: "int \<Rightarrow> int \<Rightarrow> py_error + rat" where
  "py_truediv a b = (if b = 0 then Inl ZeroDivisionError else Inr (fl (of_int a / of_int b)))"

text \<open>
  numpy and pandas arithmetic does not raise on a zero divisor: it yields an infinity
  or NaN, which then propagates through multiplication and rounding.
\<close>

datatype npfloat = Fin rat | PosInf | NegInf | NaN

definition np_truediv :: "rat \<Rightarrow> rat \<Rightarrow> npfloat" where
  "np_truediv a b =
     (if b = 0 then (if a = 0 then NaN else if 0 < a then PosInf else NegInf)
      else Fin (fl (a / b)))"

fun np_times100 :: "npfloat \<Rightarrow> npfloat" where
  "np_times100 (Fin x) = Fin (fmul x 100)"
| "np_times100 v = v"


subsection \<open>datetime\<close>

text \<open>
  A \<^verbatim>\<open>datetime\<close> with its calendar day given as the proleptic ordinal
  (\<^verbatim>\<open>date.toordinal()\<close>, day 1 is Monday 0001-01-01). The range check on years is not
  modelled.
\<close>

record datetime =
  dt_ordinal :: int
  dt_hour :: nat
  dt_minute :: nat
  dt_second :: nat
  dt_microsecond :: nat

definition add_days :: "datetime \<Rightarrow> int \<Rightarrow> datetime" where
  "add_days d k = d\<lparr>dt_ordinal := dt_ordinal d + k\<rparr>"

definition add_minutes :: "datetime \<Rightarrow> nat \<Rightarrow> datetime" where
  "add_minutes d m =
     (let total = dt_hour d * 60 + dt_minute d + m
      in d\<lparr>dt_ordinal := dt_ordinal d + int (total div 1440),
            dt_hour := (total mod 1440) div 60,
            dt_minute := total mod 60\<rparr>)"

definition weekday :: "datetime \<Rightarrow> nat" where
  "weekday d = nat ((dt_ordinal d + 6) mod 7)"

definition day_name :: "datetime \<Rightarrow> string" where
  "day_name d =
     [''Monday'', ''Tuesday'', ''Wednesday'', ''Thursday'', ''Friday'', ''Saturday'', ''Sunday'']
       ! weekday d"


section \<open>The event table\<close>

text \<open>
  The identifiers are f-strings over numbers: \<^verbatim>\<open>f"user_{i}"\<close> and
  \<^verbatim>\<open>f"session_{date.strftime('%Y%m%d')}_{hour}_{n}"\<close>. Both renderings are injective, so
  an identifier is represented by the numbers it is rendered from (the calendar day by its
  ordinal).
\<close>

datatype user_id = User nat

datatype session_id = Session int nat int

record row =
  timestamp :: datetime
  date :: int
  hour :: nat
  user_id :: user_id
  session_id :: session_id
  page :: string
  time_on_page :: int
  source :: string
  device :: string
  country :: string
  is_bounce :: bool
  converted :: bool
  day_of_week :: "string option"

text \<open>
  A DataFrame held in \<^verbatim>\<open>self.data\<close>: either the frame without any column that
  \<^verbatim>\<open>pd.DataFrame([])\<close> builds, or a frame with the event columns. The flag records
  whether the \<^verbatim>\<open>timestamp\<close> column has a datetime dtype (a generated table) or holds
  the strings read from a CSV file. \<open>day_of_week\<close> is \<open>None\<close> in every row until the
  column exists.
\<close>

datatype table = EmptyFrame | Table (rows: "row list") (datetime_typed: bool)

section \<open>The random source\<close>

text \<open>
  \<^verbatim>\<open>np.random\<close> is an external library: its sampling functions are a parameter of the
  model, over an abstract generator state \<open>'g\<close>. Each function returns its draw and the
  next state. \<open>choice_index n p\<close> is the index that \<^verbatim>\<open>np.random.choice\<close> picks in a
  list of \<open>n\<close> items with weights \<open>p\<close> (\<open>[]\<close> when no weights are passed).
\<close>

record 'g np_random =
  seed :: "nat \<Rightarrow> 'g"
  poisson :: "rat \<Rightarrow> 'g \<Rightarrow> nat \<times> 'g"
  randint :: "int \<Rightarrow> int \<Rightarrow> 'g \<Rightarrow> int \<times> 'g"
  choice_index :: "nat \<Rightarrow> rat list \<Rightarrow> 'g \<Rightarrow> nat \<times> 'g"
  random_sample :: "'g \<Rightarrow> rat \<times> 'g"
  gamma :: "rat \<Rightarrow> rat \<Rightarrow> 'g \<Rightarrow> rat \<times> 'g"

text \<open>
  A statement that draws either raises, with the generator state it raised in, or returns
  its value and the next state.
\<close>

type_synonym ('g, 'a) draw = "(py_error \<times> 'g) + ('a \<times> 'g)"

definition bind :: "('e + 'a) \<Rightarrow> ('a \<Rightarrow> 'e + 'b) \<Rightarrow> 'e + 'b" where
  "bind m f = (case m of Inl e \<Rightarrow> Inl e | Inr a \<Rightarrow> f a)"

text \<open>
  \<^verbatim>\<open>np.random.choice(xs)\<close> raises \<^verbatim>\<open>ValueError\<close> on an empty list and otherwise returns
  a member of the list: the index supplied by the parameter is reduced into range, which
  is the identity for a library that meets its contract.
\<close>

definition np_choice :: "'g np_random \<Rightarrow> 'a list \<Rightarrow> 'g \<Rightarrow> ('g, 'a) draw" where
  "np_choice R xs g =
     (if xs = [] then Inl (ValueError, g)
      else case choice_index R (length xs) [] g of (k, g') \<Rightarrow> Inr (xs ! (k mod length xs), g'))"

text \<open>
  With weights, \<^verbatim>\<open>choice\<close> also raises \<^verbatim>\<open>ValueError\<close> when the weights do not match the
  list, are negative, or do not sum to 1 within \<open>sqrt eps = 2 ^ -26\<close>.
\<close>

definition np_choice_p :: "'g np_random \<Rightarrow> 'a list \<Rightarrow> rat list \<Rightarrow> 'g \<Rightarrow> ('g, 'a) draw" where
  "np_choice_p R xs p g =
     (if xs = [] \<or> length p \<noteq> length xs \<or> (\<exists>q \<in> set p. q < 0) \<or> 1 / 2 ^ 26 < \<bar>sum_list p - 1\<bar>
      then Inl (ValueError, g)
      else case choice_index R (length xs) p g of (k, g') \<Rightarrow> Inr (xs ! (k mod length xs), g'))"

text \<open>\<^verbatim>\<open>np.random.randint(lo, hi)\<close> lies in \<open>lo \<le> n < hi\<close>; the parameter's draw is reduced into that range.\<close>

definition np_randint :: "'g np_random \<Rightarrow> int \<Rightarrow> int \<Rightarrow> 'g \<Rightarrow> int \<times> 'g" where
  "np_randint R lo hi g = (case randint R lo hi g of (n, g') \<Rightarrow> (lo + (n - lo) mod (hi - lo), g'))"

text \<open>Python's \<^verbatim>\<open>int(x)\<close> on a float truncates towards zero.\<close>

definition py_int :: "rat \<Rightarrow> int" where
  "py_int x = (if 0 \<le> x then \<lfloor>x\<rfloor> else \<lceil>x\<rceil>)"

text \<open>A \<^verbatim>\<open>for\<close> loop whose body may raise: the first exception ends the loop.\<close>

fun for_loop :: "('a \<Rightarrow> 's \<Rightarrow> 'e + 's) \<Rightarrow> 'a list \<Rightarrow> 's \<Rightarrow> 'e + 's" where
  "for_loop body [] s = Inr s"
| "for_loop body (x # xs) s = (case body x s of Inl e \<Rightarrow> Inl e | Inr s' \<Rightarrow> for_loop body xs s')"

section \<open>generate\_sample\_data\<close>

definition pages :: "string list" where
  "pages = [''/home'', ''/products'', ''/about'', ''/contact'', ''/blog'',
            ''/pricing'', ''/signup'', ''/login'', ''/support'', ''/faq'']"

definition sources :: "string list" where
  "sources = [''Google'', ''Direct'', ''Facebook'', ''Twitter'', ''Email'',
              ''LinkedIn'', ''Bing'', ''Instagram'', ''Referral'', ''Other'']"

definition devices :: "string list" where
  "devices = [''Desktop'', ''Mobile'', ''Tablet'']"

definition countries :: "string list" where
  "countries = [''United States'', ''United Kingdom'', ''Canada'', ''Germany'',
                ''France'', ''Australia'', ''India'', ''Japan'', ''Brazil'', ''Mexico'']"

definition user_ids :: "user_id list" where
  "user_ids = map User [1..<1001]"

definition source_weights :: "rat list" where
  "source_weights = map fl [2/5, 1/5, 3/20, 1/20, 1/20, 1/20, 3/100, 3/100, 1/50, 1/50]"

definition device_weights :: "rat list" where
  "device_weights = map fl [11/20, 7/20, 1/10]"

definition country_weights :: "rat list" where
  "country_weights = map fl [9/20, 3/20, 1/10, 1/20, 1/20, 1/20, 1/20, 1/20, 3/100, 1/50]"

definition num_pages_weights :: "rat list" where
  "num_pages_weights = map fl [3/10, 1/4, 1/5, 3/20, 1/20, 1/20]"

text \<open>Lines 69 to 78: the traffic factor of an hour, lower at weekends.\<close>

definition visits_factor :: "nat \<Rightarrow> datetime \<Rightarrow> rat" where
  "visits_factor h d =
     (let visits_factor = (if 9 \<le> h \<and> h \<le> 17 then fl (3 / 2)
                           else if 18 \<le> h \<and> h \<le> 22 then fl (6 / 5)
                           else fl (1 / 2))
      in if 5 \<le> weekday d then fmul visits_factor (fl (7 / 10)) else visits_factor)"

text \<open>The variables of one session that stay fixed while its pages are generated (lines 85 to 100).\<close>

record session =
  s_user_id :: user_id
  s_session_id :: session_id
  s_session_start :: datetime
  s_source :: string
  s_device :: string
  s_country :: string
  s_num_pages :: nat
  s_is_bounce :: bool
  s_first_page :: string

definition new_session :: "'g np_random \<Rightarrow> datetime \<Rightarrow> nat \<Rightarrow> 'g \<Rightarrow> ('g, session) draw" where
  "new_session R d h g0 =
     bind (np_choice R user_ids g0) (\<lambda>(user_id, g1).
       case np_randint R 1000 9999 g1 of (n, g2) \<Rightarrow>
       case np_randint R 0 60 g2 of (m, g3) \<Rightarrow>
     bind (np_choice_p R sources source_weights g3) (\<lambda>(source, g4).
     bind (np_choice_p R devices device_weights g4) (\<lambda>(device, g5).
     bind (np_choice_p R countries country_weights g5) (\<lambda>(country, g6).
     bind (np_choice_p R [1, 2, 3, 4, 5, 6] num_pages_weights g6) (\<lambda>(num_pages, g7).
     bind (if source \<noteq> ''Direct''
           then (case random_sample R g7 of (u, g8) \<Rightarrow>
                   if u < fl (7 / 10) then Inr (''/home'', g8) else np_choice R pages g8)
           else np_choice R pages g7) (\<lambda>(first_page, g9).
       Inr (\<lparr>s_user_id = user_id,
             s_session_id = Session (dt_ordinal d) h n,
             s_session_start = d\<lparr>dt_hour := h, dt_minute := nat m\<rparr>,
             s_source = source, s_device = device, s_country = country,
             s_num_pages = num_pages, s_is_bounce = (num_pages = 1),
             s_first_page = first_page\<rparr>, g9)))))))"

text \<open>
  Line 117: the list the next page is drawn from, \<^verbatim>\<open>[p for p in pages if p not in
  viewed_pages][:5] if viewed_pages else pages\<close>.
\<close>

definition next_page_candidates :: "string list \<Rightarrow> string list" where
  "next_page_candidates viewed_pages =
     (if viewed_pages \<noteq> [] then take 5 (filter (\<lambda>p. p \<notin> set viewed_pages) pages) else pages)"

text \<open>
  Lines 112 to 117: the page that follows the pages viewed so far. \<^verbatim>\<open>viewed_pages[-1]\<close>
  raises on an empty list; the coin is only flipped when the left operand of \<^verbatim>\<open>and\<close>
  holds.
\<close>

definition next_page :: "'g np_random \<Rightarrow> string list \<Rightarrow> 'g \<Rightarrow> ('g, string) draw" where
  "next_page R viewed_pages g =
     (if viewed_pages = [] then Inl (IndexError, g)
      else if last viewed_pages = ''/products'' then
        (case random_sample R g of (u, g') \<Rightarrow>
           if u < fl (2 / 5) then Inr (''/signup'', g')
           else np_choice R (next_page_candidates viewed_pages) g')
      else if last viewed_pages = ''/pricing'' then
        (case random_sample R g of (u, g') \<Rightarrow>
           if u < fl (3 / 10) then Inr (''/signup'', g')
           else np_choice R (next_page_candidates viewed_pages) g')
      else np_choice R (next_page_candidates viewed_pages) g)"

text \<open>
  The variables that the page loop of a session updates: the pages viewed, the
  conversion flag, the records appended so far and the generator state.
\<close>

record 'g page_state =
  viewed_pages :: "string list"
  conv :: bool
  records :: "row list"
  rng :: "'g"

text \<open>Lines 108 to 146: the body of the page loop, for page index \<open>i\<close>.\<close>

definition page_view ::
  "'g np_random \<Rightarrow> session \<Rightarrow> nat \<Rightarrow> 'g page_state \<Rightarrow> (py_error \<times> 'g) + 'g page_state" where
  "page_view R S i st =
     bind (if i = 0 then Inr (s_first_page S, rng st) else next_page R (viewed_pages st) (rng st))
       (\<lambda>(page, g1).
          let (time_on_page, g2) =
                (if int i < int (s_num_pages S) - 1
                 then (case gamma R 2 30 g1 of (x, g') \<Rightarrow> (py_int x, g'))
                 else (0, g1));
              (converted, g3) =
                (if page = ''/signup''
                 then (case random_sample R g2 of (u, g') \<Rightarrow> (if u < fl (1 / 5) then True else conv st, g'))
                 else (conv st, g2));
              timestamp = add_minutes (s_session_start S) (i * 2)
          in Inr \<lparr>viewed_pages = viewed_pages st @ [page],
                  conv = converted,
                  records = records st @
                    [\<lparr>timestamp = timestamp, date = dt_ordinal timestamp, hour = dt_hour timestamp,
                      user_id = s_user_id S, session_id = s_session_id S, page = page,
                      time_on_page = time_on_page, source = s_source S, device = s_device S,
                      country = s_country S, is_bounce = s_is_bounce S, converted = converted,
                      day_of_week = None\<rparr>],
                  rng = g3\<rparr>)"

text \<open>Lines 85 to 146: one visit. The records and the generator state pass through.\<close>

definition generate_session ::
  "'g np_random \<Rightarrow> datetime \<Rightarrow> nat \<Rightarrow> row list \<times> 'g \<Rightarrow> (py_error \<times> 'g) + (row list \<times> 'g)" where
  "generate_session R d h = (\<lambda>(recs, g).
     bind (new_session R d h g) (\<lambda>(S, g').
     bind (for_loop (page_view R S) [0..<s_num_pages S]
             \<lparr>viewed_pages = [], conv = False, records = recs, rng = g'\<rparr>)
       (\<lambda>st. Inr (records st, rng st))))"

text \<open>Lines 67 to 146: one hour of one day.\<close>

definition generate_hour ::
  "'g np_random \<Rightarrow> datetime \<Rightarrow> nat \<Rightarrow> row list \<times> 'g \<Rightarrow> (py_error \<times> 'g) + (row list \<times> 'g)" where
  "generate_hour R d h = (\<lambda>(recs, g).
     case poisson R (fmul 20 (visits_factor h d)) g of (num_visits, g') \<Rightarrow>
       for_loop (\<lambda>_. generate_session R d h) [0..<num_visits] (recs, g'))"

definition generate_day ::
  "'g np_random \<Rightarrow> datetime \<Rightarrow> row list \<times> 'g \<Rightarrow> (py_error \<times> 'g) + (row list \<times> 'g)" where
  "generate_day R d = for_loop (generate_hour R d) [0..<24]"

text \<open>
  Lines 33 to 35: the days to generate, counted back from the clock reading \<open>now\<close>.
  \<^verbatim>\<open>range(days)\<close> is empty for \<open>days \<le> 0\<close>.
\<close>

definition date_range :: "datetime \<Rightarrow> int \<Rightarrow> datetime list" where
  "date_range now days =
     (let start_date = add_days now (- days)
      in map (\<lambda>i. add_days start_date (int i)) [0..<nat days])"

definition generate_records :: "'g np_random \<Rightarrow> datetime \<Rightarrow> int \<Rightarrow> (py_error \<times> 'g) + (row list \<times> 'g)" where
  "generate_records R now days = for_loop (generate_day R) (date_range now days) ([], seed R 42)"

section \<open>The analyzer\<close>

text \<open>What the program writes: printed text, printed numbers and tables (their formatting
  is not rendered), and the figures shown.\<close>

datatype emitted =
  Printed string
| PrintedCount string int
| PrintedValue string npfloat
| PrintedError string py_error
| PrintedFrame
| Figure string

text \<open>
  The fields of the analyzer object, together with the two pieces of process state its
  methods touch: the standard output and the state of numpy's global generator.
\<close>

record 'g analyzer =
  data :: "table option"
  data_file :: "string option"
  stdout :: "emitted list"
  np_state :: "'g"

definition print :: "emitted \<Rightarrow> 'g analyzer \<Rightarrow> 'g analyzer" where
  "print x st = st\<lparr>stdout := stdout st @ [x]\<rparr>"

definition init :: "string option \<Rightarrow> 'g \<Rightarrow> 'g analyzer" where
  "init file g = \<lparr>data = None, data_file = file, stdout = [], np_state = g\<rparr>"

text \<open>
  Lines 15 to 23. \<^verbatim>\<open>pd.read_csv\<close> is a parameter: what reading a path gives, an exception
  or a table. The \<^verbatim>\<open>except\<close> branch prints and returns; it does not assign \<^verbatim>\<open>self.data\<close>.
\<close>

definition load_data ::
  "(string option \<Rightarrow> py_error + table) \<Rightarrow> 'g analyzer \<Rightarrow> bool \<times> 'g analyzer" where
  "load_data read_csv st =
     (case read_csv (data_file st) of
        Inr t \<Rightarrow> (True, print (Printed ''Data loaded successfully'') (st\<lparr>data := Some t\<rparr>))
      | Inl e \<Rightarrow> (False, print (PrintedError ''Error loading data'' e) st))"

text \<open>
  Lines 25 to 154. The clock reading \<open>now\<close> (\<^verbatim>\<open>datetime.now()\<close>) is an input. An empty
  record list makes \<^verbatim>\<open>self.data['timestamp']\<close> raise after \<^verbatim>\<open>self.data\<close> was assigned
  the frame without columns.
\<close>

definition generate_sample_data ::
  "'g np_random \<Rightarrow> datetime \<Rightarrow> int \<Rightarrow> 'g analyzer \<Rightarrow> (py_error + table) \<times> 'g analyzer" where
  "generate_sample_data R now days st0 =
     (let st1 = print (Printed ''Generating sample website traffic data...'') st0
      in case generate_records R now days of
           Inl (e, g) \<Rightarrow> (Inl e, st1\<lparr>np_state := g\<rparr>)
         | Inr (recs, g) \<Rightarrow>
             if recs = [] then (Inl KeyError, st1\<lparr>data := Some EmptyFrame, np_state := g\<rparr>)
             else let t = Table recs True
                  in (Inr t, print (PrintedCount ''Generated page views'' (int (length recs)))
                               (st1\<lparr>data := Some t, np_state := g\<rparr>)))"

section \<open>Reports\<close>

definition no_data :: emitted where
  "no_data = Printed ''No data available. Please load or generate data first.''"

definition nunique :: "'a list \<Rightarrow> nat" where
  "nunique xs = length (remdups xs)"

text \<open>\<^verbatim>\<open>drop_duplicates(key)\<close> keeps the first row of every key, in table order.\<close>

fun drop_dups :: "('r \<Rightarrow> 'k) \<Rightarrow> 'k list \<Rightarrow> 'r list \<Rightarrow> 'r list" where
  "drop_dups key seen [] = []"
| "drop_dups key seen (r # rs) =
     (if key r \<in> set seen then drop_dups key seen rs else r # drop_dups key (key r # seen) rs)"

definition drop_duplicates :: "('r \<Rightarrow> 'k) \<Rightarrow> 'r list \<Rightarrow> 'r list" where
  "drop_duplicates key rs = drop_dups key [] rs"

definition session_ids :: "row list \<Rightarrow> session_id list" where
  "session_ids rs = remdups (map session_id rs)"

definition session_rows :: "row list \<Rightarrow> session_id \<Rightarrow> row list" where
  "session_rows rs sid = filter (\<lambda>r. session_id r = sid) rs"

subsection \<open>basic\_metrics\<close>

record metrics =
  total_pageviews :: nat
  unique_visitors :: nat
  unique_sessions :: nat
  pages_per_session :: rat
  sessions_per_visitor :: rat
  bounce_rate :: npfloat
  conversion_rate :: npfloat
  avg_session_duration :: npfloat

text \<open>A sum of a pandas integer column is a 64-bit integer and wraps around.\<close>

definition int64 :: "int \<Rightarrow> int" where
  "int64 n = (n + 2 ^ 63) mod 2 ^ 64 - 2 ^ 63"

text \<open>
  Lines 173 to 193. \<^verbatim>\<open>len\<close> and \<^verbatim>\<open>nunique\<close> give Python integers, whose division raises
  on zero; the sums are numpy integers, whose division does not. The mean of the session
  durations is taken as their exact sum, rounded once.
\<close>

definition compute_metrics :: "row list \<Rightarrow> py_error + metrics" where
  "compute_metrics rs =
     (let total_pageviews = length rs;
          unique_visitors = nunique (map user_id rs);
          unique_sessions = nunique (map session_id rs)
      in bind (py_truediv (int unique_sessions) (int unique_visitors)) (\<lambda>sessions_per_visitor.
         let bounce_sessions = length (filter is_bounce (drop_duplicates session_id rs));
             bounce_rate = np_times100 (np_truediv (of_nat bounce_sessions) (of_nat unique_sessions));
             converted_sessions =
               length (filter (\<lambda>sid. \<exists>r \<in> set (session_rows rs sid). converted r) (session_ids rs));
             conversion_rate = np_times100 (np_truediv (of_nat converted_sessions) (of_nat unique_sessions))
         in bind (py_truediv (int total_pageviews) (int unique_sessions)) (\<lambda>pages_per_session.
            let session_durations =
                  map (\<lambda>sid. int64 (sum_list (map time_on_page (session_rows rs sid))))
                    (session_ids rs);
                avg_session_duration =
                  np_truediv (fl (of_int (sum_list session_durations))) (of_nat (length session_durations))
            in Inr \<lparr>total_pageviews = total_pageviews,
                    unique_visitors = unique_visitors,
                    unique_sessions = unique_sessions,
                    pages_per_session = pages_per_session,
                    sessions_per_visitor = sessions_per_visitor,
                    bounce_rate = bounce_rate,
                    conversion_rate = conversion_rate,
                    avg_session_duration = avg_session_duration\<rparr>)))"

definition print_metrics :: "metrics \<Rightarrow> 'g analyzer \<Rightarrow> 'g analyzer" where
  "print_metrics m st =
     st\<lparr>stdout := stdout st @
       [PrintedCount ''Total Pageviews'' (int (total_pageviews m)),
        PrintedCount ''Unique Visitors'' (int (unique_visitors m)),
        PrintedCount ''Total Sessions'' (int (unique_sessions m)),
        PrintedValue ''Pages per Session'' (Fin (pages_per_session m)),
        PrintedValue ''Sessions per Visitor'' (Fin (sessions_per_visitor m)),
        PrintedValue ''Bounce Rate'' (bounce_rate m),
        PrintedValue ''Conversion Rate'' (conversion_rate m),
        PrintedValue ''Average Session Duration'' (avg_session_duration m)]\<rparr>"

text \<open>Lines 164 to 214. The result is \<open>None\<close> where the method returns nothing.\<close>

definition basic_metrics :: "'g analyzer \<Rightarrow> (py_error + metrics option) \<times> 'g analyzer" where
  "basic_metrics st =
     (case data st of
        None \<Rightarrow> (Inr None, print no_data st)
      | Some t \<Rightarrow>
          let st1 = print (Printed ''=== Basic Website Traffic Metrics ==='') st
          in case t of
               EmptyFrame \<Rightarrow> (Inl KeyError, st1)
             | Table rs typed \<Rightarrow>
                 (case compute_metrics rs of
                    Inl e \<Rightarrow> (Inl e, st1)
                  | Inr m \<Rightarrow> (Inr (Some m), print_metrics m st1)))"

subsection \<open>traffic\_over\_time\<close>

text \<open>
  Lines 216 to 257. The grouped series only feed the chart, shown as a figure. The
  day-of-week variant assigns the derived column to \<^verbatim>\<open>self.data\<close>; \<^verbatim>\<open>.dt\<close> raises on a
  column of strings. Any other time unit falls through the \<^verbatim>\<open>elif\<close> chain. The bar chart
  of the hourly variant raises on a series without entries, that is on a table without
  rows.
\<close>

definition with_day_of_week :: "row list \<Rightarrow> row list" where
  "with_day_of_week rs = map (\<lambda>r. r\<lparr>day_of_week := Some (day_name (timestamp r))\<rparr>) rs"

definition traffic_over_time :: "string \<Rightarrow> 'g analyzer \<Rightarrow> (py_error + unit option) \<times> 'g analyzer" where
  "traffic_over_time time_unit st =
     (case data st of
        None \<Rightarrow> (Inr None, print no_data st)
      | Some t \<Rightarrow>
          if time_unit = ''day'' then
            (case t of EmptyFrame \<Rightarrow> (Inl KeyError, st)
             | Table rs typed \<Rightarrow> (Inr None, print (Figure ''Daily Sessions'') st))
          else if time_unit = ''hour'' then
            (case t of EmptyFrame \<Rightarrow> (Inl KeyError, st)
             | Table rs typed \<Rightarrow>
                 if rs = [] then (Inl IndexError, st)
                 else (Inr None, print (Figure ''Hourly Traffic Pattern'') st))
          else if time_unit = ''day_of_week'' then
            (case t of EmptyFrame \<Rightarrow> (Inl KeyError, st)
             | Table rs typed \<Rightarrow>
                 if \<not> typed then (Inl AttributeError, st)
                 else (Inr None, print (Figure ''Traffic by Day of Week'')
                                   (st\<lparr>data := Some (Table (with_day_of_week rs) typed)\<rparr>)))
          else (Inr None, st))"

subsection \<open>analyze\_traffic\_sources\<close>

record source_summary =
  ss_source :: string
  ss_sessions :: nat
  ss_bounce_rate :: npfloat
  ss_conversion_rate :: npfloat

text \<open>
  Lines 266 to 275 and 310 to 314: one line per source, from the first row of every
  session, most sessions first. The order among sources with equal session counts is not
  that of pandas.
\<close>

definition source_summaries :: "row list \<Rightarrow> source_summary list" where
  "source_summaries rs =
     (let firsts = drop_duplicates session_id rs
      in rev (sort_key ss_sessions
           (map (\<lambda>s. let of_source = filter (\<lambda>r. source r = s) firsts;
                          source_sessions = length of_source;
                          source_bounces = length (filter is_bounce of_source);
                          source_conversions = length (filter converted of_source)
                      in \<lparr>ss_source = s,
                          ss_sessions = source_sessions,
                          ss_bounce_rate =
                            np_times100 (np_truediv (of_nat source_bounces) (of_nat source_sessions)),
                          ss_conversion_rate =
                            np_times100 (np_truediv (of_nat source_conversions) (of_nat source_sessions))\<rparr>)
                (remdups (map source firsts)))))"

text \<open>
  Lines 259 to 317. The first bar chart raises on a table without rows, before anything is
  shown or printed.
\<close>

definition analyze_traffic_sources ::
  "'g analyzer \<Rightarrow> (py_error + source_summary list option) \<times> 'g analyzer" where
  "analyze_traffic_sources st =
     (case data st of
        None \<Rightarrow> (Inr None, print no_data st)
      | Some EmptyFrame \<Rightarrow> (Inl KeyError, st)
      | Some (Table rs typed) \<Rightarrow>
          if rs = [] then (Inl IndexError, st)
          else
          (Inr (Some (source_summaries rs)),
           st\<lparr>stdout := stdout st @
             [Figure ''Sessions by Traffic Source'',
              Figure ''Bounce Rate by Traffic Source'',
              Figure ''Conversion Rate by Traffic Source'',
              Printed ''=== Traffic Source Analysis ==='',
              PrintedFrame]\<rparr>))"

subsection \<open>popular\_pages\<close>






text \<open>
  Lines 319 to 356, where the source file ends: after the first chart is shown, the second
  chart is set up and the method is over, so it returns nothing and the frame
  \<^verbatim>\<open>exit_rates\<close> stays local. The first bar chart raises on a table without rows.
\<close>

definition popular_pages :: "'g analyzer \<Rightarrow> (py_error + unit option) \<times> 'g analyzer" where
  "popular_pages st =
     (case data st of
        None \<Rightarrow> (Inr None, print no_data st)
      | Some EmptyFrame \<Rightarrow> (Inl KeyError, st)
      | Some (Table rs typed) \<Rightarrow>
          if rs = [] then (Inl IndexError, st)
          else (Inr None, print (Figure ''Most Popular Pages'') st))"

section \<open>Sessions in the generated table\<close>

text \<open>A row carries the session-level values of the session \<open>S\<close>.\<close>

definition session_row :: "session \<Rightarrow> row \<Rightarrow> bool" where
  "session_row S r \<longleftrightarrow>
     user_id r = s_user_id S \<and> session_id r = s_session_id S \<and> source r = s_source S \<and>
     device r = s_device S \<and> country r = s_country S \<and> is_bounce r = s_is_bounce S"

text \<open>
  The rows that one pass through the visit loop appends: at least one row, all with the
  same identifiers, source, device, country and bounce flag, and the bounce flag set
  exactly when the pass appended a single row.
\<close>

definition session_block :: "row list \<Rightarrow> bool" where
  "session_block b \<longleftrightarrow>
     b \<noteq> [] \<and>
     (\<forall>r \<in> set b. session_id r = session_id (hd b) \<and> user_id r = user_id (hd b) \<and>
        source r = source (hd b) \<and> device r = device (hd b) \<and> country r = country (hd b) \<and>
        is_bounce r = is_bounce (hd b) \<and> is_bounce r = (length b = 1))"

text \<open>
  The same property read per \<^verbatim>\<open>session_id\<close> over a whole table: rows with equal
  \<^verbatim>\<open>session_id\<close> agree on the session-level columns, and a row has the bounce flag
  exactly when its \<^verbatim>\<open>session_id\<close> occurs once.
\<close>

definition sessions_consistent :: "row list \<Rightarrow> bool" where
  "sessions_consistent rs \<longleftrightarrow>
     (\<forall>r \<in> set rs. \<forall>r' \<in> set rs. session_id r = session_id r' \<longrightarrow>
        user_id r = user_id r' \<and> source r = source r' \<and> device r = device r' \<and>
        country r = country r' \<and> is_bounce r = is_bounce r') \<and>
     (\<forall>r \<in> set rs. is_bounce r = (length (session_rows rs (session_id r)) = 1))"

text \<open>The conversion flag is the same on all rows of a \<^verbatim>\<open>session_id\<close>.\<close>

definition converted_per_session :: "row list \<Rightarrow> bool" where
  "converted_per_session rs \<longleftrightarrow>
     (\<forall>r \<in> set rs. \<forall>r' \<in> set rs. session_id r = session_id r' \<and> converted r \<longrightarrow> converted r')"

text \<open>
  The rows of one pass through the visit loop, as far as the conversion flag goes:
  one \<^verbatim>\<open>session_id\<close>; the flag never falls back from true to false along the rows
  (\<open>False < True\<close> in the order of \<open>bool\<close>); and a row has the flag only if it or a
  row before it is a view of the signup page.
\<close>

definition conversion_block :: "row list \<Rightarrow> bool" where
  "conversion_block b \<longleftrightarrow>
     b \<noteq> [] \<and> (\<forall>r \<in> set b. session_id r = session_id (hd b)) \<and> sorted (map converted b) \<and>
     (\<forall>i < length b. converted (b ! i) \<longrightarrow> (\<exists>j \<le> i. page (b ! j) = ''/signup''))"

subsection \<open>The rows of each pass through the visit loop\<close>

text \<open>
  The generation loops once more, this time keeping apart what each pass through the
  visit loop appends. A pass runs \<open>generate_session\<close> on the records so far and notes
  the rows that it added; \<open>session_passes\<close> is the list of these row lists, one for every
  simulated session, in the order of the run.
\<close>

definition session_pass ::
  "'g np_random \<Rightarrow> datetime \<Rightarrow> nat \<Rightarrow> row list list \<times> 'g \<Rightarrow>
     (py_error \<times> 'g) + (row list list \<times> 'g)" where
  "session_pass R d h = (\<lambda>(bs, g).
     bind (generate_session R d h (concat bs, g)) (\<lambda>(recs, g').
       Inr (bs @ [drop (length (concat bs)) recs], g')))"

definition hour_passes ::
  "'g np_random \<Rightarrow> datetime \<Rightarrow> nat \<Rightarrow> row list list \<times> 'g \<Rightarrow>
     (py_error \<times> 'g) + (row list list \<times> 'g)" where
  "hour_passes R d h = (\<lambda>(bs, g).
     case poisson R (fmul 20 (visits_factor h d)) g of (num_visits, g') \<Rightarrow>
       for_loop (\<lambda>_. session_pass R d h) [0..<num_visits] (bs, g'))"

definition day_passes ::
  "'g np_random \<Rightarrow> datetime \<Rightarrow> row list list \<times> 'g \<Rightarrow> (py_error \<times> 'g) + (row list list \<times> 'g)" where
  "day_passes R d = for_loop (hour_passes R d) [0..<24]"

definition session_passes ::
  "'g np_random \<Rightarrow> datetime \<Rightarrow> int \<Rightarrow> (py_error \<times> 'g) + (row list list \<times> 'g)" where
  "session_passes R now days = for_loop (day_passes R) (date_range now days) ([], seed R 42)"

section \<open>Concrete inputs\<close>

text \<open>
  A random source that replays a script: every draw takes the next number of the script
  (0 once the script is used up), and seeding rewinds to the start of the script.
  \<open>random_sample\<close> reads the number as tenths.
\<close>

fun pop :: "nat list \<Rightarrow> nat \<times> nat list" where
  "pop [] = (0, [])"
| "pop (x # xs) = (x, xs)"

definition scripted :: "nat list \<Rightarrow> nat list np_random" where
  "scripted script =
     \<lparr>seed = (\<lambda>n. script),
      poisson = (\<lambda>lam g. pop g),
      randint = (\<lambda>lo hi g. case pop g of (n, g') \<Rightarrow> (lo + int n, g')),
      choice_index = (\<lambda>n p g. pop g),
      random_sample = (\<lambda>g. case pop g of (n, g') \<Rightarrow> (of_nat n / 10, g')),
      gamma = (\<lambda>shape scale g. case pop g of (n, g') \<Rightarrow> (of_nat n, g'))\<rparr>"

text \<open>A clock reading: a Wednesday, 10:30:15.000250.\<close>

definition a_clock :: datetime where
  "a_clock = \<lparr>dt_ordinal = 739000, dt_hour = 10, dt_minute = 30, dt_second = 15, dt_microsecond = 250\<rparr>"

definition a_row :: row where
  "a_row = \<lparr>timestamp = a_clock, date = 739000, hour = 10, user_id = User 1,
            session_id = Session 739000 10 1000, page = ''/home'', time_on_page = 0,
            source = ''Google'', device = ''Desktop'', country = ''United States'',
            is_bounce = True, converted = False, day_of_week = None\<rparr>"

text \<open>A table of 15 rows in 11 sessions: rows 11 to 14 belong to the sessions of rows 0 to 3.\<close>

definition fifteen_rows :: "row list" where
  "fifteen_rows = map (\<lambda>i. a_row\<lparr>session_id := Session 739000 10 (int (i mod 11))\<rparr>) [0..<15]"

text \<open>
  The row of a one-page session whose draws are all 0 but the user index \<open>k\<close>: the
  user \<^verbatim>\<open>user_ids[k]\<close> lands on the home page at minute 0 of hour \<open>h\<close> of day \<open>d\<close>.
\<close>

definition landing_row :: "datetime \<Rightarrow> nat \<Rightarrow> nat \<Rightarrow> row" where
  "landing_row d h k =
     \<lparr>timestamp = d\<lparr>dt_hour := h, dt_minute := 0\<rparr>, date = dt_ordinal d, hour = h,
      user_id = User (Suc k), session_id = Session (dt_ordinal d) h 1000, page = ''/home'',
      time_on_page = 0, source = ''Google'', device = ''Desktop'', country = ''United States'',
      is_bounce = True, converted = False, day_of_week = None\<rparr>"

text \<open>
  The rows of a three-page session that goes from the home page to the product page and
  on to the signup page, where it converts.
\<close>

definition signup_rows :: "datetime \<Rightarrow> nat \<Rightarrow> row list" where
  "signup_rows d h =
     [(landing_row d h 0)\<lparr>is_bounce := False\<rparr>,
      (landing_row d h 0)\<lparr>timestamp := d\<lparr>dt_hour := h, dt_minute := 2\<rparr>,
                           page := ''/products'', is_bounce := False\<rparr>,
      (landing_row d h 0)\<lparr>timestamp := d\<lparr>dt_hour := h, dt_minute := 4\<rparr>,
                           page := ''/signup'', is_bounce := False, converted := True\<rparr>]"

text \<open>The clock reading one day earlier: the only day of a one-day run.\<close>

definition a_day :: datetime where
  "a_day = add_days a_clock (- 1)"

text \<open>A session of three pages that starts on the home page in hour 0 of that day.\<close>

definition a_session :: session where
  "a_session =
     \<lparr>s_user_id = User 1, s_session_id = Session (dt_ordinal a_day) 0 1000,
      s_session_start = a_day\<lparr>dt_hour := 0, dt_minute := 0\<rparr>,
      s_source = ''Google'', s_device = ''Desktop'', s_country = ''United States'',
      s_num_pages = 3, s_is_bounce = False, s_first_page = ''/home''\<rparr>"

section \<open>Rounding to a double\<close>

text \<open>The exponent of a positive number: \<open>2 ^ e \<le> x < 2 ^ (e + 1)\<close>.\<close>

lemma float_exponent_ge1:
  assumes "1 \<le> x"
  shows "power_int 2 (float_exponent x) \<le> x \<and> x < power_int 2 (float_exponent x + 1)"
proof -
  define n where "n = nat \<lfloor>x\<rfloor>"
  define L where "L = floorlog 2 n"
  have fx: "1 \<le> \<lfloor>x\<rfloor>" using assms by simp
  then have n0: "0 < n" by (simp add: n_def)
  from floorlog_bounds [OF n0, of 2]
  have b: "2 ^ (L - 1) \<le> n" "n < 2 ^ L" by (simp_all add: L_def)
  have L0: "0 < L" using b(2) n0 by (cases L) auto
  have e: "float_exponent x = int (L - 1)" "float_exponent x + 1 = int L"
    using assms L0 by (simp_all add: float_exponent_def n_def L_def)
  have p: "power_int (2::rat) (float_exponent x) = 2 ^ (L - 1)"
    "power_int (2::rat) (float_exponent x + 1) = 2 ^ L"
    by (simp only: e(1) power_int_of_nat, simp only: e(2) power_int_of_nat)
  have nx: "(of_nat n :: rat) = of_int \<lfloor>x\<rfloor>" using fx by (simp add: n_def)
  have "(2::rat) ^ (L - 1) \<le> of_nat n"
    using b(1) by (metis of_nat_le_iff of_nat_numeral of_nat_power)
  also have "\<dots> \<le> x" unfolding nx by simp
  finally have lo: "(2::rat) ^ (L - 1) \<le> x" .
  have "n + 1 \<le> 2 ^ L" using b(2) by simp
  then have "(of_nat (n + 1) :: rat) \<le> 2 ^ L"
    by (metis of_nat_le_iff of_nat_numeral of_nat_power)
  moreover have "x < of_nat (n + 1)" unfolding of_nat_add nx by simp linarith
  ultimately have hi: "x < (2::rat) ^ L" by simp
  show ?thesis unfolding p using lo hi by simp
qed


lemma float_exponent_lt1:
  assumes "0 < x" and "x < 1"
  shows "power_int 2 (float_exponent x) \<le> x \<and> x < power_int 2 (float_exponent x + 1)"
proof -
  define m where "m = \<lceil>1 / x\<rceil>"
  define k where "k = floorlog 2 (nat (m - 1))"
  have y: "1 < 1 / x" using assms by simp
  then have m2: "2 \<le> m" unfolding m_def by linarith
  then have n0: "0 < nat (m - 1)" by simp
  from floorlog_bounds [OF n0, of 2]
  have b: "2 ^ (k - 1) \<le> nat (m - 1)" "nat (m - 1) < 2 ^ k" by (simp_all add: k_def)
  have k0: "0 < k" using b(2) n0 by (cases k) auto
  have e: "float_exponent x = - int k"
    using assms by (simp add: float_exponent_def m_def k_def)
  have e1: "float_exponent x + 1 = - int (k - 1)" using e k0 by simp
  have p: "power_int (2::rat) (float_exponent x) = 1 / 2 ^ k"
    "power_int (2::rat) (float_exponent x + 1) = 1 / 2 ^ (k - 1)"
    by (simp only: e power_int_minus_divide power_int_of_nat,
        simp only: e1 power_int_minus_divide power_int_of_nat)
  from b(2) have "Suc (nat (m - 1)) \<le> 2 ^ k" by (rule Suc_leI)
  then have "int (Suc (nat (m - 1))) \<le> 2 ^ k"
    by (metis of_nat_le_iff of_nat_numeral of_nat_power)
  then have "m \<le> 2 ^ k" using m2 by simp
  then have "(of_int m :: rat) \<le> 2 ^ k"
    by (metis of_int_le_iff of_int_numeral of_int_power)
  moreover have "1 / x \<le> of_int m" unfolding m_def by simp
  ultimately have "1 / x \<le> 2 ^ k" by (rule order_trans [rotated])
  then have lo: "1 / 2 ^ k \<le> x"
    using assms(1) by (simp add: field_simps)
  from b(1) have "int (2 ^ (k - 1)) \<le> int (nat (m - 1))" by (simp only: of_nat_le_iff)
  moreover have "int (nat (m - 1)) = m - 1" using m2 by simp
  moreover have "int (2 ^ (k - 1)) = 2 ^ (k - 1)" by simp
  ultimately have "2 ^ (k - 1) \<le> m - 1" by (simp only:)
  then have "(2::rat) ^ (k - 1) \<le> of_int (m - 1)"
    by (metis of_int_le_iff of_int_numeral of_int_power)
  moreover have "of_int (m - 1) < 1 / x" unfolding m_def by simp linarith
  ultimately have "2 ^ (k - 1) < 1 / x" by (rule order_le_less_trans)
  then have hi: "x < 1 / 2 ^ (k - 1)"
    using assms(1) by (simp add: field_simps)
  show ?thesis unfolding p using lo hi by simp
qed

lemma float_exponent_bounds:
  assumes "0 < x"
  shows "power_int 2 (float_exponent x) \<le> x" and "x < power_int 2 (float_exponent x + 1)"
  using float_exponent_ge1 [of x] float_exponent_lt1 [of x] assms by (cases "1 \<le> x"; simp)+

lemma round_half_even_split:
  "(round_half_even t = \<lfloor>t\<rfloor> \<and> t - of_int \<lfloor>t\<rfloor> \<le> 1 / 2) \<or>
   (round_half_even t = \<lfloor>t\<rfloor> + 1 \<and> 1 / 2 \<le> t - of_int \<lfloor>t\<rfloor>)"
proof -
  define f where "f = \<lfloor>t\<rfloor>"
  define r where "r = t - of_int f"
  have rhe: "round_half_even t =
      (if r < 1 / 2 then f else if 1 / 2 < r then f + 1 else if even f then f else f + 1)"
    by (simp only: round_half_even_def Let_def f_def r_def)
  have "(round_half_even t = f \<and> r \<le> 1 / 2) \<or> (round_half_even t = f + 1 \<and> 1 / 2 \<le> r)"
  proof (cases "r < 1 / 2")
    case True
    then show ?thesis unfolding rhe by simp
  next
    case False
    show ?thesis
    proof (cases "1 / 2 < r")
      case True
      then show ?thesis unfolding rhe using False by simp
    next
      case False
      with \<open>\<not> r < 1 / 2\<close> have "r = 1 / 2" by simp
      then show ?thesis unfolding rhe by simp
    qed
  qed
  then show ?thesis unfolding r_def f_def .
qed

lemma round_half_even_cases:
  "round_half_even t = \<lfloor>t\<rfloor> \<or> (round_half_even t = \<lfloor>t\<rfloor> + 1 \<and> 1 / 2 \<le> t - of_int \<lfloor>t\<rfloor>)"
  using round_half_even_split [of t] by blast

lemma round_half_even_error: "\<bar>of_int (round_half_even t) - t\<bar> \<le> 1 / 2"
proof -
  have r: "0 \<le> t - of_int \<lfloor>t\<rfloor>" "t - of_int \<lfloor>t\<rfloor> < 1" by linarith+
  from round_half_even_split [of t] show ?thesis
  proof
    assume "round_half_even t = \<lfloor>t\<rfloor> \<and> t - of_int \<lfloor>t\<rfloor> \<le> 1 / 2"
    then show ?thesis using r by (simp add: abs_le_iff)
  next
    assume "round_half_even t = \<lfloor>t\<rfloor> + 1 \<and> 1 / 2 \<le> t - of_int \<lfloor>t\<rfloor>"
    then show ?thesis using r by (simp add: abs_le_iff)
  qed
qed

lemma round_half_even_le:
  assumes "t \<le> of_int k"
  shows "round_half_even t \<le> k"
proof -
  have f: "\<lfloor>t\<rfloor> \<le> k" using assms by (simp add: floor_le_iff)
  from round_half_even_cases [of t] show ?thesis
  proof
    assume "round_half_even t = \<lfloor>t\<rfloor>"
    then show ?thesis using f by simp
  next
    assume a: "round_half_even t = \<lfloor>t\<rfloor> + 1 \<and> 1 / 2 \<le> t - of_int \<lfloor>t\<rfloor>"
    then have "of_int \<lfloor>t\<rfloor> < t" by simp
    then have "of_int \<lfloor>t\<rfloor> < (of_int k :: rat)" using assms by simp
    then have "\<lfloor>t\<rfloor> < k" by simp
    then show ?thesis using a by simp
  qed
qed

lemma round_half_even_ge:
  assumes "of_int k \<le> t"
  shows "k \<le> round_half_even t"
proof -
  have "k \<le> \<lfloor>t\<rfloor>" using assms by (simp add: le_floor_iff)
  then show ?thesis using round_half_even_cases [of t] by auto
qed



lemma fl_pos:
  assumes "0 < x"
  shows "fl x = of_int (round_half_even (x / power_int 2 (float_exponent x - 52))) *
                  power_int 2 (float_exponent x - 52)"
  using assms by (simp add: fl_def Let_def)

lemma fl_error:
  assumes "0 < x"
  shows "\<bar>fl x - x\<bar> \<le> x / 2 ^ 53"
proof -
  define e where "e = float_exponent x"
  define u :: rat where "u = power_int 2 (e - 52)"
  define t where "t = x / u"
  have u0: "0 < u" by (simp add: u_def)
  have x: "x = t * u" using u0 by (simp add: t_def)
  have "fl x - x = (of_int (round_half_even t) - t) * u"
    unfolding fl_pos [OF assms] e_def [symmetric] u_def [symmetric] t_def [symmetric]
    by (simp add: x algebra_simps)
  then have "\<bar>fl x - x\<bar> = \<bar>of_int (round_half_even t) - t\<bar> * u"
    using u0 by (simp add: abs_mult)
  also have "\<dots> \<le> 1 / 2 * u"
    using round_half_even_error [of t] u0 by (intro mult_right_mono) simp_all
  also have "1 / 2 * u = power_int 2 e / 2 ^ 53"
    unfolding u_def by (simp add: power_int_diff)
  also have "\<dots> \<le> x / 2 ^ 53"
    using float_exponent_bounds(1) [OF assms] by (simp add: e_def divide_right_mono)
  finally show ?thesis .
qed


text \<open>Below \<open>2 ^ 53\<close> the spacing of the doubles is at most 1.\<close>

lemma float_unit_inverse:
  assumes "0 < x" and "x < 2 ^ 53"
  shows "\<exists>k::nat. power_int (2::rat) (float_exponent x - 52) = 1 / 2 ^ k"
proof -
  have "float_exponent x < 53"
  proof (rule ccontr)
    assume "\<not> float_exponent x < 53"
    then have "53 \<le> float_exponent x" by simp
    then have "power_int (2::rat) 53 \<le> power_int 2 (float_exponent x)"
      by (intro power_int_increasing) simp_all
    then show False using float_exponent_bounds(1) [OF assms(1)] assms(2) by simp
  qed
  then have "float_exponent x - 52 = - int (nat (52 - float_exponent x))" by simp
  then have "power_int (2::rat) (float_exponent x - 52) = 1 / 2 ^ nat (52 - float_exponent x)"
    by (simp only: power_int_minus_divide power_int_of_nat)
  then show ?thesis by blast
qed

lemma fl_le_int:
  assumes "0 \<le> x" and "x \<le> of_int N" and "N < 2 ^ 53"
  shows "fl x \<le> of_int N"
proof (cases "x = 0")
  case True
  then show ?thesis using assms by (simp add: fl_def)
next
  case False
  then have x: "0 < x" using assms by simp
  have "(of_int N :: rat) < 2 ^ 53" using assms(3)
    by (metis of_int_less_iff of_int_numeral of_int_power)
  then have "x < 2 ^ 53" using assms(2) by simp
  from float_unit_inverse [OF x this] obtain k :: nat
    where u: "power_int (2::rat) (float_exponent x - 52) = 1 / 2 ^ k" by blast
  have "x / (1 / 2 ^ k) \<le> of_int N * 2 ^ k" using assms(2) by simp
  also have "\<dots> = of_int (N * 2 ^ k)" by simp
  finally have "round_half_even (x / (1 / 2 ^ k)) \<le> N * 2 ^ k" by (rule round_half_even_le)
  then have "(of_int (round_half_even (x / (1 / 2 ^ k))) :: rat) \<le> of_int (N * 2 ^ k)"
    by (simp only: of_int_le_iff)
  then have "of_int (round_half_even (x / (1 / 2 ^ k))) * (1 / 2 ^ k) \<le> (of_int N :: rat)"
    by (simp add: field_simps)
  then show ?thesis unfolding fl_pos [OF x] u .
qed

lemma fl_ge_int:
  assumes "0 \<le> N" and "of_int N \<le> x" and "x < 2 ^ 53"
  shows "of_int N \<le> fl x"
proof (cases "x = 0")
  case True
  then show ?thesis using assms by (simp add: fl_def)
next
  case False
  then have x: "0 < x" using assms by simp
  from float_unit_inverse [OF x assms(3)] obtain k :: nat
    where u: "power_int (2::rat) (float_exponent x - 52) = 1 / 2 ^ k" by blast
  have "(of_int (N * 2 ^ k) :: rat) = of_int N * 2 ^ k" by simp
  also have "\<dots> \<le> x / (1 / 2 ^ k)" using assms(2) by simp
  finally have "N * 2 ^ k \<le> round_half_even (x / (1 / 2 ^ k))" by (rule round_half_even_ge)
  then have "(of_int (N * 2 ^ k) :: rat) \<le> of_int (round_half_even (x / (1 / 2 ^ k)))"
    by (simp only: of_int_le_iff)
  then have "(of_int N :: rat) \<le> of_int (round_half_even (x / (1 / 2 ^ k))) * (1 / 2 ^ k)"
    by (simp add: field_simps)
  then show ?thesis unfolding fl_pos [OF x] u .
qed

text \<open>Integers below \<open>2 ^ 53\<close> are doubles.\<close>

lemma fl_int:
  assumes "0 \<le> N" and "N < 2 ^ 53"
  shows "fl (of_int N) = of_int N"
proof -
  have "(of_int N :: rat) < 2 ^ 53" using assms(2)
    by (metis of_int_less_iff of_int_numeral of_int_power)
  then have "of_int N \<le> fl (of_int N)"
    using assms(1) by (intro fl_ge_int) simp_all
  moreover have "fl (of_int N) \<le> of_int N"
    using assms by (intro fl_le_int) simp_all
  ultimately show ?thesis by simp
qed

section \<open>Loops and sessions\<close>

lemma for_loop_append:
  "for_loop body (xs @ ys) s = bind (for_loop body xs s) (for_loop body ys)"
  by (induction xs arbitrary: s) (auto simp: bind_def split: sum.splits)

lemma for_loop_invariant:
  assumes "for_loop body xs s = Inr s'" and "I s"
    and "\<And>x t t'. I t \<Longrightarrow> body x t = Inr t' \<Longrightarrow> I t'"
  shows "I s'"
  using assms
proof (induction xs arbitrary: s)
  case Nil
  then show ?case by simp
next
  case (Cons x xs)
  from Cons.prems(1) obtain t where t: "body x s = Inr t" and rest: "for_loop body xs t = Inr s'"
    by (auto split: sum.splits)
  have "I t" using Cons.prems(2,3) t by auto
  then show ?case using Cons.IH [OF rest] Cons.prems(3) by auto
qed

lemma for_loop_total:
  assumes "\<And>x t. \<exists>t'. body x t = Inr t'"
  shows "\<exists>s'. for_loop body xs s = Inr s'"
proof (induction xs arbitrary: s)
  case Nil
  then show ?case by simp
next
  case (Cons x xs)
  obtain t where "body x s = Inr t" using assms by blast
  moreover obtain s' where "for_loop body xs t = Inr s'" using Cons.IH by blast
  ultimately show ?case by simp
qed

text \<open>One pass through the page loop appends one row with the session's values.\<close>

lemma page_view_Inr:
  assumes "page_view R S i st = Inr st'"
  shows "\<exists>r. records st' = records st @ [r] \<and> session_row S r \<and> converted r = conv st' \<and>
              (conv st \<longrightarrow> conv st') \<and> viewed_pages st' = viewed_pages st @ [page r]"
  using assms
  by (auto simp: page_view_def bind_def session_row_def Let_def
      split: sum.splits prod.splits if_splits)

text \<open>The flag is only set on a view of the signup page.\<close>

lemma page_view_signup:
  assumes "page_view R S i st = Inr st'"
  shows "\<exists>r. records st' = records st @ [r] \<and> converted r = conv st' \<and>
              (conv st' \<longrightarrow> conv st \<or> page r = ''/signup'')"
  using assms
  by (auto simp: page_view_def bind_def Let_def split: sum.splits prod.splits if_splits)

lemma session_loop_signup:
  assumes "for_loop (page_view R S) js st = Inr st'"
  shows "\<exists>b. records st' = records st @ b \<and>
             (\<forall>i < length b. converted (b ! i) \<longrightarrow>
                conv st \<or> (\<exists>j \<le> i. page (b ! j) = ''/signup''))"
  using assms
proof (induction js arbitrary: st)
  case Nil
  then show ?case by simp
next
  case (Cons j js)
  from Cons.prems obtain t where t: "page_view R S j st = Inr t"
    and rest: "for_loop (page_view R S) js t = Inr st'"
    by (auto split: sum.splits)
  from page_view_signup [OF t] obtain r where r: "records t = records st @ [r]"
    "converted r = conv t" "conv t \<longrightarrow> conv st \<or> page r = ''/signup''"
    by blast
  from Cons.IH [OF rest] obtain b where b: "records st' = records t @ b"
    "\<forall>i < length b. converted (b ! i) \<longrightarrow> conv t \<or> (\<exists>j \<le> i. page (b ! j) = ''/signup'')"
    by blast
  have "converted ((r # b) ! i) \<longrightarrow> conv st \<or> (\<exists>j \<le> i. page ((r # b) ! j) = ''/signup'')"
    if i: "i < length (r # b)" for i
  proof (cases i)
    case 0
    then show ?thesis using r(2,3) by auto
  next
    case (Suc k)
    show ?thesis
    proof
      assume c: "converted ((r # b) ! i)"
      then have "converted (b ! k)" using Suc by simp
      moreover have "k < length b" using i Suc by simp
      ultimately consider "conv t" | j where "j \<le> k" "page (b ! j) = ''/signup''"
        using b(2) by blast
      then show "conv st \<or> (\<exists>j \<le> i. page ((r # b) ! j) = ''/signup'')"
      proof cases
        case 1
        then have "conv st \<or> page ((r # b) ! 0) = ''/signup''" using r(3) by simp
        then show ?thesis by blast
      next
        case 2
        then have "Suc j \<le> i" "page ((r # b) ! Suc j) = ''/signup''" using Suc by simp_all
        then show ?thesis by blast
      qed
    qed
  qed
  moreover have "records st' = records st @ (r # b)" using r(1) b(1) by simp
  ultimately show ?case by blast
qed

lemma session_loop_block:
  assumes "for_loop (page_view R S) js st = Inr st'"
  shows "\<exists>b. records st' = records st @ b \<and> length b = length js \<and> (\<forall>r \<in> set b. session_row S r) \<and>
             sorted (map converted b) \<and> (\<forall>r \<in> set b. conv st \<longrightarrow> converted r) \<and>
             viewed_pages st' = viewed_pages st @ map page b \<and> (conv st \<longrightarrow> conv st')"
  using assms
proof (induction js arbitrary: st)
  case Nil
  then show ?case by simp
next
  case (Cons j js)
  from Cons.prems obtain t where t: "page_view R S j st = Inr t"
    and rest: "for_loop (page_view R S) js t = Inr st'"
    by (auto split: sum.splits)
  from page_view_Inr [OF t] obtain r where r: "records t = records st @ [r]" "session_row S r"
    "converted r = conv t" "conv st \<longrightarrow> conv t" "viewed_pages t = viewed_pages st @ [page r]"
    by blast
  from Cons.IH [OF rest] obtain b where b: "records st' = records t @ b" "length b = length js"
    "\<forall>r \<in> set b. session_row S r" "sorted (map converted b)" "\<forall>r \<in> set b. conv t \<longrightarrow> converted r"
    "viewed_pages st' = viewed_pages t @ map page b" "conv t \<longrightarrow> conv st'"
    by blast
  have "records st' = records st @ (r # b)" using r b by simp
  moreover have "length (r # b) = length (j # js)" using b by simp
  moreover have "\<forall>x \<in> set (r # b). session_row S x" using r b by simp
  moreover have "sorted (map converted (r # b))" using r b by auto
  moreover have "\<forall>x \<in> set (r # b). conv st \<longrightarrow> converted x" using r b by auto
  moreover have "viewed_pages st' = viewed_pages st @ map page (r # b)" using r b by simp
  moreover have "conv st \<longrightarrow> conv st'" using r b by simp
  ultimately show ?case by blast
qed

text \<open>The session length is one of 1 to 6, and the bounce flag says whether it is 1.\<close>

lemma new_session_num_pages:
  assumes "new_session R d h g = Inr (S, g')"
  shows "1 \<le> s_num_pages S \<and> s_num_pages S \<le> 6 \<and> s_is_bounce S = (s_num_pages S = 1)"
proof -
  have m: "1 \<le> [1, 2, 3, 4, 5, 6::nat] ! (k mod 6) \<and> [1, 2, 3, 4, 5, 6::nat] ! (k mod 6) \<le> 6"
    for k :: nat
  proof -
    have "[1, 2, 3, 4, 5, 6::nat] ! (k mod 6) \<in> set [1, 2, 3, 4, 5, 6::nat]"
      by (rule nth_mem) simp
    then show ?thesis by auto
  qed
  show ?thesis
    using assms m
    by (auto simp: new_session_def bind_def np_choice_p_def split: sum.splits prod.splits if_splits)
qed

lemma generate_session_block:
  assumes "generate_session R d h (recs, g) = Inr (recs', g')"
  shows "\<exists>b. recs' = recs @ b \<and> session_block b \<and> conversion_block b"
proof -
  from assms obtain S g1 st where S: "new_session R d h g = Inr (S, g1)"
    and loop: "for_loop (page_view R S) [0..<s_num_pages S]
                 \<lparr>viewed_pages = [], conv = False, records = recs, rng = g1\<rparr> = Inr st"
    and out: "recs' = records st"
    by (auto simp: generate_session_def bind_def split: sum.splits prod.splits)
  from new_session_num_pages [OF S]
  have n: "1 \<le> s_num_pages S" "s_is_bounce S = (s_num_pages S = 1)" by simp_all
  from session_loop_block [OF loop] obtain b where b: "records st = recs @ b"
    "length b = s_num_pages S" "\<forall>r \<in> set b. session_row S r" "sorted (map converted b)"
    by auto
  from session_loop_signup [OF loop] obtain b' where b': "records st = recs @ b'"
    "\<forall>i < length b'. converted (b' ! i) \<longrightarrow> (\<exists>j \<le> i. page (b' ! j) = ''/signup'')"
    by auto
  have same: "b' = b" using b(1) b'(1) by simp
  have ne: "b \<noteq> []" using b(2) n(1) by auto
  then have "hd b \<in> set b" by simp
  then have hd: "session_row S (hd b)" using b(3) by blast
  then have "session_block b"
    using ne b(2,3) n(2) unfolding session_block_def session_row_def by auto
  moreover have "\<forall>r \<in> set b. session_id r = session_id (hd b)"
    using hd b(3) unfolding session_row_def by auto
  then have "conversion_block b"
    using ne b(4) b'(2) unfolding conversion_block_def same by blast
  ultimately show ?thesis using out b(1) by blast
qed

section \<open>The passes through the visit loop\<close>

text \<open>A loop over row lists kept apart does what the loop over their concatenation does.\<close>

lemma for_loop_concat:
  assumes "\<And>x bs g. body x (concat bs, g) =
             (case body' x (bs, g) of Inl e \<Rightarrow> Inl e | Inr (bs', g') \<Rightarrow> Inr (concat bs', g'))"
  shows "for_loop body xs (concat bs, g) =
           (case for_loop body' xs (bs, g) of Inl e \<Rightarrow> Inl e | Inr (bs', g') \<Rightarrow> Inr (concat bs', g'))"
proof (induction xs arbitrary: bs g)
  case Nil
  then show ?case by simp
next
  case (Cons x xs)
  show ?case
  proof (cases "body' x (bs, g)")
    case (Inl e)
    then show ?thesis using assms [of x bs g] by simp
  next
    case (Inr t)
    obtain bs1 g1 where t: "t = (bs1, g1)" by (cases t)
    have "body x (concat bs, g) = Inr (concat bs1, g1)"
      using assms [of x bs g] Inr t by simp
    then show ?thesis using Inr t Cons.IH [of bs1 g1] by simp
  qed
qed

lemma session_pass_step:
  assumes "generate_session R d h (concat bs, g) = Inr (concat bs @ b, g')"
  shows "session_pass R d h (bs, g) = Inr (bs @ [b], g')"
  using assms by (simp add: session_pass_def bind_def)

lemma session_pass_refines:
  "generate_session R d h (concat bs, g) =
     (case session_pass R d h (bs, g) of Inl e \<Rightarrow> Inl e | Inr (bs', g') \<Rightarrow> Inr (concat bs', g'))"
proof (cases "generate_session R d h (concat bs, g)")
  case (Inl e)
  then show ?thesis by (simp add: session_pass_def bind_def)
next
  case (Inr t)
  obtain recs g' where t: "t = (recs, g')" by (cases t)
  from generate_session_block [of R d h "concat bs" g recs g'] Inr t
  obtain b where "recs = concat bs @ b" by auto
  then have "generate_session R d h (concat bs, g) = Inr (concat bs @ b, g')"
    using Inr t by simp
  then show ?thesis using session_pass_step [of R d h bs g b g'] by simp
qed

lemma hour_passes_refines:
  "generate_hour R d h (concat bs, g) =
     (case hour_passes R d h (bs, g) of Inl e \<Rightarrow> Inl e | Inr (bs', g') \<Rightarrow> Inr (concat bs', g'))"
proof -
  obtain n g1 where p: "poisson R (fmul 20 (visits_factor h d)) g = (n, g1)"
    by (cases "poisson R (fmul 20 (visits_factor h d)) g")
  have "for_loop (\<lambda>_. generate_session R d h) [0..<n] (concat bs, g1) =
      (case for_loop (\<lambda>_. session_pass R d h) [0..<n] (bs, g1) of
         Inl e \<Rightarrow> Inl e | Inr (bs', g') \<Rightarrow> Inr (concat bs', g'))"
    by (rule for_loop_concat) (rule session_pass_refines)
  then show ?thesis using p by (simp add: generate_hour_def hour_passes_def)
qed

lemma day_passes_refines:
  "generate_day R d (concat bs, g) =
     (case day_passes R d (bs, g) of Inl e \<Rightarrow> Inl e | Inr (bs', g') \<Rightarrow> Inr (concat bs', g'))"
  unfolding generate_day_def day_passes_def
  by (rule for_loop_concat) (rule hour_passes_refines)

text \<open>The records of a run are the rows of its passes, one pass after the other.\<close>

lemma session_passes_refines:
  "generate_records R now days =
     (case session_passes R now days of
        Inl e \<Rightarrow> Inl e | Inr (bs, g) \<Rightarrow> Inr (concat bs, g))"
proof -
  have "for_loop (generate_day R) (date_range now days) (concat [], seed R 42) =
     (case for_loop (day_passes R) (date_range now days) ([], seed R 42) of
        Inl e \<Rightarrow> Inl e | Inr (bs, g) \<Rightarrow> Inr (concat bs, g))"
    by (rule for_loop_concat) (rule day_passes_refines)
  then show ?thesis by (simp add: generate_records_def session_passes_def)
qed

text \<open>Every pass appends the rows of one session.\<close>

lemma session_passes_blocks:
  assumes "session_passes R now days = Inr (bs, g)"
  shows "\<forall>b \<in> set bs. session_block b \<and> conversion_block b"
proof -
  let ?I = "\<lambda>s. \<forall>b \<in> set (fst s). session_block b \<and> conversion_block b"
  have session: "?I t'" if "?I t" "session_pass R d h t = Inr t'" for d h t t'
  proof -
    obtain bs0 g0 where t: "t = (bs0, g0)" by (cases t)
    from that(2) t obtain recs g1 where run: "generate_session R d h (concat bs0, g0) = Inr (recs, g1)"
      and t': "t' = (bs0 @ [drop (length (concat bs0)) recs], g1)"
      by (auto simp: session_pass_def bind_def split: sum.splits prod.splits)
    from generate_session_block [OF run] obtain b where b: "recs = concat bs0 @ b"
      "session_block b" "conversion_block b" by blast
    have "drop (length (concat bs0)) recs = b" using b(1) by simp
    then show ?thesis using that(1) t t' b(2,3) by simp
  qed
  have hour: "?I t'" if "?I t" "hour_passes R d h t = Inr t'" for d h t t'
  proof -
    obtain bs0 g0 where t: "t = (bs0, g0)" by (cases t)
    obtain n g1 where p: "poisson R (fmul 20 (visits_factor h d)) g0 = (n, g1)"
      by (cases "poisson R (fmul 20 (visits_factor h d)) g0")
    have loop: "for_loop (\<lambda>_. session_pass R d h) [0..<n] (bs0, g1) = Inr t'"
      using that(2) t p by (simp add: hour_passes_def)
    have start: "?I (bs0, g1)" using that(1) t by simp
    show ?thesis
      using loop start session by (rule for_loop_invariant)
  qed
  have day: "?I t'" if "?I t" "day_passes R d t = Inr t'" for d t t'
    using that(2) [unfolded day_passes_def] that(1) hour by (rule for_loop_invariant)
  have start: "?I ([], seed R 42)" by simp
  have "?I (bs, g)"
    using assms [unfolded session_passes_def] start day by (rule for_loop_invariant)
  then show ?thesis by simp
qed

text \<open>
  The rows of a returned table are the rows of the passes, and the rows of every pass
  are consistent: one \<^verbatim>\<open>session_id\<close>, user, source, device and country, and the bounce
  flag exactly on the passes that appended a single row.
\<close>

lemma generated_table_passes:
  assumes "generate_sample_data R now days st = (Inr t, st')"
  shows "\<exists>bs g. session_passes R now days = Inr (bs, g) \<and> rows t = concat bs \<and>
                (\<forall>b \<in> set bs. session_block b \<and> conversion_block b)"
proof -
  from assms obtain recs g where run: "generate_records R now days = Inr (recs, g)"
    and t: "t = Table recs True"
    by (auto simp: generate_sample_data_def Let_def split: sum.splits prod.splits if_splits)
  from run obtain bs where p: "session_passes R now days = Inr (bs, g)" and c: "recs = concat bs"
    unfolding session_passes_refines by (auto split: sum.splits prod.splits)
  from session_passes_blocks [OF p] show ?thesis using p c t by auto
qed

section \<open>Running the generator on a script\<close>

lemma scripted_simps [simp]:
  "seed (scripted s) n = s"
  "poisson (scripted s) lam g = pop g"
  "randint (scripted s) lo hi g = (case pop g of (n, g') \<Rightarrow> (lo + int n, g'))"
  "choice_index (scripted s) k p g = pop g"
  "random_sample (scripted s) g = (case pop g of (n, g') \<Rightarrow> (of_nat n / 10, g'))"
  "gamma (scripted s) shape scale g = (case pop g of (n, g') \<Rightarrow> (of_nat n, g'))"
  by (simp_all add: scripted_def)

text \<open>The four weight lists pass the checks of \<^verbatim>\<open>np.random.choice\<close>.\<close>

lemma weights_sum:
  "\<not> 1 / 2 ^ 26 < \<bar>sum_list source_weights - 1\<bar>"
  "\<not> 1 / 2 ^ 26 < \<bar>sum_list device_weights - 1\<bar>"
  "\<not> 1 / 2 ^ 26 < \<bar>sum_list country_weights - 1\<bar>"
  "\<not> 1 / 2 ^ 26 < \<bar>sum_list num_pages_weights - 1\<bar>"
  by code_simp+

lemma weights_nonneg:
  "\<forall>q \<in> set source_weights. \<not> q < 0"
  "\<forall>q \<in> set device_weights. \<not> q < 0"
  "\<forall>q \<in> set country_weights. \<not> q < 0"
  "\<forall>q \<in> set num_pages_weights. \<not> q < 0"
  by code_simp+

lemma weights_length:
  "length source_weights = 10" "length device_weights = 3"
  "length country_weights = 10" "length num_pages_weights = 6"
  by (simp_all add: source_weights_def device_weights_def country_weights_def
      num_pages_weights_def)

lemma thresholds:
  "0 < fl (7 / 10)" "0 < fl (2 / 5)" "0 < fl (3 / 10)" "0 < fl (1 / 5)"
  by code_simp+

lemma lists_nonempty [simp]:
  "sources \<noteq> []" "devices \<noteq> []" "countries \<noteq> []" "pages \<noteq> []"
  by (simp_all add: sources_def devices_def countries_def pages_def)

lemma weights_match:
  "length source_weights = length sources" "length device_weights = length devices"
  "length country_weights = length countries"
  "length num_pages_weights = length [1, 2, 3, 4, 5, 6::nat]"
  by (simp_all add: weights_length sources_def devices_def countries_def)

lemma np_choice_p_ok:
  assumes "xs \<noteq> []" and "length p = length xs" and "\<forall>q \<in> set p. \<not> q < 0"
    and "\<not> 1 / 2 ^ 26 < \<bar>sum_list p - 1\<bar>"
  shows "np_choice_p R xs p g =
     (case choice_index R (length xs) p g of (k, g') \<Rightarrow> Inr (xs ! (k mod length xs), g'))"
  using assms unfolding np_choice_p_def by auto

lemmas choice_p_total =
  np_choice_p_ok [OF lists_nonempty(1) weights_match(1) weights_nonneg(1) weights_sum(1)]
  np_choice_p_ok [OF lists_nonempty(2) weights_match(2) weights_nonneg(2) weights_sum(2)]
  np_choice_p_ok [OF lists_nonempty(3) weights_match(3) weights_nonneg(3) weights_sum(3)]
  np_choice_p_ok [OF _ weights_match(4) weights_nonneg(4) weights_sum(4), simplified]

lemma user_ids_nth: "k < 1000 \<Longrightarrow> user_ids ! k = User (Suc k)"
  by (simp add: user_ids_def)

lemma length_user_ids [simp]: "length user_ids = 1000"
  by (simp add: user_ids_def)

lemma user_ids_nonempty [simp]: "user_ids \<noteq> []"
  by (simp add: user_ids_def)

lemma first_items:
  "sources ! 0 = ''Google''" "devices ! 0 = ''Desktop''" "countries ! 0 = ''United States''"
  "pages ! 0 = ''/home''" "''Google'' \<noteq> ''Direct''"
  by (simp_all add: sources_def devices_def countries_def pages_def)

lemma add_minutes_small:
  assumes "h < 24" and "m < 60"
  shows "add_minutes (d\<lparr>dt_hour := h, dt_minute := 0\<rparr>) m = d\<lparr>dt_hour := h, dt_minute := m\<rparr>"
proof -
  have a: "h * 60 + m < 1440" using assms by simp
  have b: "(h * 60 + m) div 60 = h" using assms by simp
  have c: "(h * 60 + m) mod 60 = m" using assms by simp
  show ?thesis using a b c by (simp add: add_minutes_def Let_def)
qed

text \<open>A session that draws the user index \<open>k\<close> and then seven times 0 is a bounce on the home page.\<close>

lemma bounce_session:
  "h < 24 \<Longrightarrow> k < 1000 \<Longrightarrow>
   generate_session (scripted s) d h (recs, [k, 0, 0, 0, 0, 0, 0, 0] @ g) =
     Inr (recs @ [landing_row d h k], g)"
  by (simp add: generate_session_def new_session_def bind_def np_choice_def np_randint_def
      choice_p_total user_ids_nth thresholds first_items page_view_def Let_def add_minutes_small
      landing_row_def)

lemma quiet_session:
  "h < 24 \<Longrightarrow> generate_session (scripted s) d h (recs, []) = Inr (recs @ [landing_row d h 0], [])"
  by (simp add: generate_session_def new_session_def bind_def np_choice_def np_randint_def
      choice_p_total user_ids_nth thresholds first_items page_view_def Let_def add_minutes_small
      landing_row_def)

lemma quiet_hour: "generate_hour (scripted s) d h (recs, []) = Inr (recs, [])"
  by (simp add: generate_hour_def)

lemma quiet_hours: "for_loop (generate_hour (scripted s) d) hs (recs, []) = Inr (recs, [])"
  by (induction hs) (simp_all add: quiet_hour)

lemma hours_unfold: "[0..<24] = 0 # [1..<24]"
  by (simp add: upt_conv_Cons)

lemma one_day: "date_range now 1 = [add_days now (- 1)]"
  by (simp add: date_range_def add_days_def)

text \<open>A one-day run that is a single visit in hour 0: one row.\<close>

lemma single_visit_run:
  "generate_records (scripted [1]) now 1 = Inr ([landing_row (add_days now (- 1)) 0 0], [])"
proof -
  have one: "[0..<1] = [0::nat]" by simp
  have "generate_day (scripted [1]) (add_days now (- 1)) ([], [1]) =
          Inr ([landing_row (add_days now (- 1)) 0 0], [])"
    by (simp add: generate_day_def hours_unfold generate_hour_def one quiet_session quiet_hours
        del: One_nat_def)
  then show ?thesis
    by (simp add: generate_records_def one_day del: One_nat_def)
qed

text \<open>Two visits in hour 0 that draw the same number for their \<^verbatim>\<open>session_id\<close>.\<close>

lemma colliding_run:
  "generate_records (scripted [2, 0, 0, 0, 0, 0, 0, 0, 0, 1, 0, 0, 0, 0, 0, 0, 0]) now 1 =
     Inr ([landing_row (add_days now (- 1)) 0 0, landing_row (add_days now (- 1)) 0 1], [])"
proof -
  have two: "[0..<2] = [0, 1]" by (simp add: upt_conv_Cons)
  show ?thesis
    using bounce_session [of 0 0 _ _ _ "[1, 0, 0, 0, 0, 0, 0, 0]"] bounce_session [of 0 1 _ _ _ "[]"]
    by (simp add: generate_records_def one_day generate_day_def hours_unfold generate_hour_def
        quiet_hours two)
qed

text \<open>A session of three pages that ends on the signup page and converts there.\<close>

lemma signup_session:
  "h < 24 \<Longrightarrow>
   generate_session (scripted s) d h (recs, [0, 0, 0, 0, 0, 0, 2]) = Inr (recs @ signup_rows d h, [])"
proof -
  have three: "[0..<3] = [0, 1, 2]" by (simp add: upt_conv_Cons)
  assume "h < 24"
  then show ?thesis
    by (simp add: generate_session_def new_session_def bind_def np_choice_def np_randint_def
      choice_p_total user_ids_nth thresholds first_items page_view_def Let_def add_minutes_small
      three next_page_def next_page_candidates_def pages_def py_int_def signup_rows_def
      landing_row_def)
qed

lemma signup_run:
  "generate_records (scripted [1, 0, 0, 0, 0, 0, 0, 2]) now 1 =
     Inr (signup_rows (add_days now (- 1)) 0, [])"
proof -
  have one: "[0..<1] = [0::nat]" by simp
  have "generate_day (scripted [1, 0, 0, 0, 0, 0, 0, 2]) (add_days now (- 1))
          ([], [1, 0, 0, 0, 0, 0, 0, 2]) = Inr (signup_rows (add_days now (- 1)) 0, [])"
    by (simp add: generate_day_def hours_unfold generate_hour_def one signup_session quiet_hours
        del: One_nat_def)
  then show ?thesis
    by (simp add: generate_records_def one_day del: One_nat_def)
qed

text \<open>The table that \<open>generate_sample_data\<close> returns for a non-empty record list.\<close>

lemma generated_table:
  assumes "generate_records R now days = Inr (recs, g)" and "recs \<noteq> []"
  shows "fst (generate_sample_data R now days st) = Inr (Table recs True)"
  using assms by (simp add: generate_sample_data_def Let_def)

lemma single_visit_table:
  "fst (generate_sample_data (scripted [1]) now 1 st) =
     Inr (Table [landing_row (add_days now (- 1)) 0 0] True)"
  by (rule generated_table [OF single_visit_run]) simp

lemma colliding_table:
  "fst (generate_sample_data (scripted [2, 0, 0, 0, 0, 0, 0, 0, 0, 1, 0, 0, 0, 0, 0, 0, 0]) now 1 st) =
     Inr (Table [landing_row (add_days now (- 1)) 0 0, landing_row (add_days now (- 1)) 0 1] True)"
  by (rule generated_table [OF colliding_run]) simp

lemma signup_table:
  "fst (generate_sample_data (scripted [1, 0, 0, 0, 0, 0, 0, 2]) now 1 st) =
     Inr (Table (signup_rows (add_days now (- 1)) 0) True)"
  by (rule generated_table [OF signup_run]) (simp add: signup_rows_def)

text \<open>The same runs, pass by pass.\<close>

lemma bounce_pass:
  "h < 24 \<Longrightarrow> k < 1000 \<Longrightarrow>
   session_pass (scripted s) d h (bs, [k, 0, 0, 0, 0, 0, 0, 0] @ g) =
     Inr (bs @ [[landing_row d h k]], g)"
  by (rule session_pass_step) (rule bounce_session)

lemma signup_pass:
  "h < 24 \<Longrightarrow>
   session_pass (scripted s) d h (bs, [0, 0, 0, 0, 0, 0, 2]) = Inr (bs @ [signup_rows d h], [])"
  by (rule session_pass_step) (rule signup_session)

lemma quiet_pass_hours: "for_loop (hour_passes (scripted s) d) hs (bs, []) = Inr (bs, [])"
  by (induction hs) (simp_all add: hour_passes_def)

lemma colliding_passes:
  "session_passes (scripted [2, 0, 0, 0, 0, 0, 0, 0, 0, 1, 0, 0, 0, 0, 0, 0, 0]) now 1 =
     Inr ([[landing_row (add_days now (- 1)) 0 0], [landing_row (add_days now (- 1)) 0 1]], [])"
proof -
  have two: "[0..<2] = [0, 1]" by (simp add: upt_conv_Cons)
  show ?thesis
    using bounce_pass [of 0 0 _ _ _ "[1, 0, 0, 0, 0, 0, 0, 0]"] bounce_pass [of 0 1 _ _ _ "[]"]
    by (simp add: session_passes_def one_day day_passes_def hours_unfold hour_passes_def
        quiet_pass_hours two)
qed

lemma signup_passes:
  "session_passes (scripted [1, 0, 0, 0, 0, 0, 0, 2]) now 1 =
     Inr ([signup_rows (add_days now (- 1)) 0], [])"
proof -
  have one: "[0..<1] = [0::nat]" by simp
  have "day_passes (scripted [1, 0, 0, 0, 0, 0, 0, 2]) (add_days now (- 1))
          ([], [1, 0, 0, 0, 0, 0, 0, 2]) = Inr ([signup_rows (add_days now (- 1)) 0], [])"
    using signup_pass [of 0 _ _ "[]"]
    by (simp add: day_passes_def hours_unfold hour_passes_def one quiet_pass_hours
        del: One_nat_def)
  then show ?thesis
    by (simp add: session_passes_def one_day del: One_nat_def)
qed

text \<open>Read per \<^verbatim>\<open>session_id\<close>, the two rows of the colliding run are not consistent.\<close>

lemma colliding_rows_inconsistent:
  "\<not> sessions_consistent [landing_row d 0 0, landing_row d 0 1]"
  by (simp add: sessions_consistent_def landing_row_def)

section \<open>The page loop never raises\<close>

lemma unviewed_count:
  assumes "distinct xs"
  shows "length xs \<le> length (filter (\<lambda>x. x \<notin> set vs) xs) + length vs"
proof -
  have "length (filter (\<lambda>x. x \<in> set vs) xs) = card (set (filter (\<lambda>x. x \<in> set vs) xs))"
    by (rule distinct_card [symmetric]) (simp add: assms)
  also have "\<dots> \<le> card (set vs)"
    by (rule card_mono) auto
  also have "\<dots> \<le> length vs"
    by (rule card_length)
  finally have "length (filter (\<lambda>x. x \<in> set vs) xs) \<le> length vs" .
  moreover have "length xs =
      length (filter (\<lambda>x. x \<in> set vs) xs) + length (filter (\<lambda>x. \<not> x \<in> set vs) xs)"
    by (simp add: sum_length_filter_compl)
  ultimately show ?thesis by simp
qed

lemma pages_distinct: "distinct pages" and pages_length: "length pages = 10"
  by (simp_all add: pages_def)

lemma candidates_five:
  assumes "viewed \<noteq> []" and "length viewed \<le> 5"
  shows "next_page_candidates viewed = take 5 (filter (\<lambda>p. p \<notin> set viewed) pages)"
    and "length (next_page_candidates viewed) = 5"
proof -
  show c: "next_page_candidates viewed = take 5 (filter (\<lambda>p. p \<notin> set viewed) pages)"
    using assms(1) by (simp add: next_page_candidates_def)
  have "10 \<le> length (filter (\<lambda>p. p \<notin> set viewed) pages) + length viewed"
    using unviewed_count [OF pages_distinct, of viewed] by (simp add: pages_length)
  then have "5 \<le> length (filter (\<lambda>p. p \<notin> set viewed) pages)"
    using assms(2) by simp
  then show "length (next_page_candidates viewed) = 5"
    unfolding c by simp
qed

lemma np_choice_total: "xs \<noteq> [] \<Longrightarrow> \<exists>x g'. np_choice R xs g = Inr (x, g')"
  by (simp add: np_choice_def split: prod.splits)

lemma next_page_total:
  assumes "viewed \<noteq> []" and "length viewed \<le> 5"
  shows "\<exists>p g'. next_page R viewed g = Inr (p, g')"
proof -
  have "next_page_candidates viewed \<noteq> []"
    using candidates_five(2) [OF assms] by auto
  then have c: "\<exists>p g'. np_choice R (next_page_candidates viewed) g0 = Inr (p, g')" for g0
    by (rule np_choice_total)
  show ?thesis
    using assms(1) c by (auto simp: next_page_def split: prod.splits)
qed

lemma page_view_total:
  assumes "i = 0 \<or> (viewed_pages st \<noteq> [] \<and> length (viewed_pages st) \<le> 5)"
  shows "\<exists>st'. page_view R S i st = Inr st'"
proof -
  have "\<exists>p g'. (if i = 0 then Inr (s_first_page S, rng st)
                 else next_page R (viewed_pages st) (rng st)) = Inr (p, g')"
    using assms next_page_total [of "viewed_pages st" R "rng st"] by auto
  then obtain p g' where "(if i = 0 then Inr (s_first_page S, rng st)
                 else next_page R (viewed_pages st) (rng st)) = Inr (p, g')" by blast
  then show ?thesis
    by (simp add: page_view_def bind_def Let_def split: prod.splits)
qed

lemma page_loop_prefix:
  assumes "k \<le> 6"
  shows "\<exists>st. for_loop (page_view R S) [0..<k]
                 \<lparr>viewed_pages = [], conv = False, records = recs, rng = g\<rparr> = Inr st \<and>
              length (viewed_pages st) = k"
  using assms
proof (induction k)
  case 0
  then show ?case by simp
next
  case (Suc k)
  then obtain st where st: "for_loop (page_view R S) [0..<k]
      \<lparr>viewed_pages = [], conv = False, records = recs, rng = g\<rparr> = Inr st"
    and len: "length (viewed_pages st) = k" by auto
  have "k = 0 \<or> (viewed_pages st \<noteq> [] \<and> length (viewed_pages st) \<le> 5)"
    using len Suc.prems by auto
  from page_view_total [OF this] obtain st' where st': "page_view R S k st = Inr st'" by blast
  from page_view_Inr [OF st'] have "length (viewed_pages st') = Suc k" using len by auto
  moreover have "for_loop (page_view R S) [0..<Suc k]
      \<lparr>viewed_pages = [], conv = False, records = recs, rng = g\<rparr> = Inr st'"
    using st st' by (simp add: for_loop_append bind_def)
  ultimately show ?case by blast
qed

lemma new_session_total: "\<exists>S g'. new_session R d h g = Inr (S, g')"
proof -
  obtain user g1 where 1: "np_choice R user_ids g = Inr (user, g1)"
    using np_choice_total [of user_ids R g] by auto
  obtain n g2 where 2: "np_randint R 1000 9999 g1 = (n, g2)"
    by (cases "np_randint R 1000 9999 g1")
  obtain m g3 where 3: "np_randint R 0 60 g2 = (m, g3)"
    by (cases "np_randint R 0 60 g2")
  obtain k4 g4 where 4: "choice_index R (length sources) source_weights g3 = (k4, g4)"
    by (cases "choice_index R (length sources) source_weights g3")
  obtain k5 g5 where 5: "choice_index R (length devices) device_weights g4 = (k5, g5)"
    by (cases "choice_index R (length devices) device_weights g4")
  obtain k6 g6 where 6: "choice_index R (length countries) country_weights g5 = (k6, g6)"
    by (cases "choice_index R (length countries) country_weights g5")
  obtain k7 g7 where 7: "choice_index R (length [1, 2, 3, 4, 5, 6::nat]) num_pages_weights g6 = (k7, g7)"
    by (cases "choice_index R (length [1, 2, 3, 4, 5, 6::nat]) num_pages_weights g6")
  have c: "\<exists>x g'. np_choice R pages g0 = Inr (x, g')" for g0
    by (rule np_choice_total) simp
  have "\<exists>p g9. (if sources ! (k4 mod length sources) \<noteq> ''Direct''
           then (case random_sample R g7 of (u, g8) \<Rightarrow>
                   if u < fl (7 / 10) then Inr (''/home'', g8) else np_choice R pages g8)
           else np_choice R pages g7) = Inr (p, g9)"
    using c by (auto split: prod.splits)
  then obtain p g9 where 8: "(if sources ! (k4 mod length sources) \<noteq> ''Direct''
           then (case random_sample R g7 of (u, g8) \<Rightarrow>
                   if u < fl (7 / 10) then Inr (''/home'', g8) else np_choice R pages g8)
           else np_choice R pages g7) = Inr (p, g9)"
    by blast
  have "new_session R d h g =
     Inr (\<lparr>s_user_id = user, s_session_id = Session (dt_ordinal d) h n,
           s_session_start = d\<lparr>dt_hour := h, dt_minute := nat m\<rparr>,
           s_source = sources ! (k4 mod length sources),
           s_device = devices ! (k5 mod length devices),
           s_country = countries ! (k6 mod length countries),
           s_num_pages = [1, 2, 3, 4, 5, 6] ! (k7 mod length [1, 2, 3, 4, 5, 6::nat]),
           s_is_bounce = ([1, 2, 3, 4, 5, 6] ! (k7 mod length [1, 2, 3, 4, 5, 6::nat]) = (1::nat)),
           s_first_page = p\<rparr>, g9)"
    using 7 8 unfolding new_session_def bind_def
    by (simp add: 1 2 3 4 5 6 choice_p_total)
  then show ?thesis by blast
qed

lemma generate_session_total: "\<exists>recs' g'. generate_session R d h (recs, g) = Inr (recs', g')"
proof -
  obtain S g1 where S: "new_session R d h g = Inr (S, g1)"
    using new_session_total [of R d h g] by blast
  have "s_num_pages S \<le> 6" using new_session_num_pages [OF S] by simp
  from page_loop_prefix [OF this, of R S recs g1] obtain st
    where "for_loop (page_view R S) [0..<s_num_pages S]
             \<lparr>viewed_pages = [], conv = False, records = recs, rng = g1\<rparr> = Inr st"
    by blast
  then show ?thesis using S by (simp add: generate_session_def bind_def)
qed

text \<open>The generation loops never raise.\<close>

lemma generate_records_total: "\<exists>recs g. generate_records R now days = Inr (recs, g)"
proof -
  have session: "\<exists>t'. generate_session R d h t = Inr t'" for d h t
    using generate_session_total [of R d h "fst t" "snd t"] by auto
  have hour: "\<exists>t'. generate_hour R d h t = Inr t'" for d h t
  proof -
    obtain recs0 g0 where t: "t = (recs0, g0)" by (cases t)
    obtain n g1 where p: "poisson R (fmul 20 (visits_factor h d)) g0 = (n, g1)"
      by (cases "poisson R (fmul 20 (visits_factor h d)) g0")
    have "\<exists>t'. for_loop (\<lambda>_. generate_session R d h) [0..<n] (recs0, g1) = Inr t'"
      by (rule for_loop_total) (rule session)
    then show ?thesis using t p by (simp add: generate_hour_def)
  qed
  have day: "\<exists>t'. generate_day R d t = Inr t'" for d t
    unfolding generate_day_def by (rule for_loop_total) (rule hour)
  have "\<exists>t'. generate_records R now days = Inr t'"
    unfolding generate_records_def by (rule for_loop_total) (rule day)
  then show ?thesis by auto
qed

section \<open>Metrics of a non-empty table\<close>

lemma nunique_pos: "xs \<noteq> [] \<Longrightarrow> 0 < nunique xs"
  by (simp add: nunique_def)

lemma compute_metrics_fields:
  assumes "rs \<noteq> []"
  shows "\<exists>m. compute_metrics rs = Inr m \<and> total_pageviews m = length rs \<and>
             unique_sessions m = nunique (map session_id rs) \<and>
             pages_per_session m =
               fl (of_nat (length rs) / of_nat (nunique (map session_id rs)))"
proof -
  have "0 < nunique (map user_id rs)" "0 < nunique (map session_id rs)"
    using assms by (simp_all add: nunique_pos)
  then show ?thesis
    by (simp add: compute_metrics_def Let_def bind_def py_truediv_def)
qed

lemma fifteen: "length fifteen_rows = 15" "nunique (map session_id fifteen_rows) = 11"
  by (simp add: fifteen_rows_def, code_simp)

lemma fifteen_by_eleven:
  "fl (15 / 11) = 6141272219141585 / 4503599627370496"
  "fmul (6141272219141585 / 4503599627370496) 11 = 8444249301319679 / 562949953421312"
  by code_simp+


lemma basic_metrics_computed:
  assumes "data st = Some (Table rs typed)" and "compute_metrics rs = Inr m"
  shows "basic_metrics st =
     (Inr (Some m), print_metrics m (print (Printed ''=== Basic Website Traffic Metrics ==='') st))"
  using assms by (simp add: basic_metrics_def Let_def)

section \<open>Exit pages\<close>











section \<open>Reports before any data, and a failed load\<close>

text \<open>
  C5. Called while \<^verbatim>\<open>self.data\<close> is \<open>None\<close>, each of the four reports raises nothing,
  returns \<open>None\<close>, and its only effect is to print the no-data notice. This holds for every
  time unit passed to \<open>traffic_over_time\<close>.
\<close>

theorem reports_without_data:
  "basic_metrics (st\<lparr>data := None\<rparr>) = (Inr None, print no_data (st\<lparr>data := None\<rparr>)) \<and>
   traffic_over_time time_unit (st\<lparr>data := None\<rparr>) = (Inr None, print no_data (st\<lparr>data := None\<rparr>)) \<and>
   analyze_traffic_sources (st\<lparr>data := None\<rparr>) = (Inr None, print no_data (st\<lparr>data := None\<rparr>)) \<and>
   popular_pages (st\<lparr>data := None\<rparr>) = (Inr None, print no_data (st\<lparr>data := None\<rparr>))"
  by (simp add: basic_metrics_def traffic_over_time_def analyze_traffic_sources_def
      popular_pages_def)

text \<open>
  C8, as the code has it. When reading fails, \<open>load_data\<close> returns \<open>False\<close>, prints the
  error, and leaves \<^verbatim>\<open>self.data\<close> as it was before the call: unset if it was unset, and
  still holding the earlier table otherwise.
\<close>

theorem load_data_failure:
  "read_csv (data_file st) = Inl e \<Longrightarrow>
     fst (load_data read_csv st) = False \<and>
     data (snd (load_data read_csv st)) = data st \<and>
     stdout (snd (load_data read_csv st)) = stdout st @ [PrintedError ''Error loading data'' e]"
  by (simp add: load_data_def print_def)

theorem load_data_failure_witness:
  "fst (load_data (\<lambda>f. Inl IOError) (init (Some ''missing.csv'') (0::nat))) = False \<and>
   data (snd (load_data (\<lambda>f. Inl IOError) (init (Some ''missing.csv'') (0::nat)))) = None"
  using load_data_failure [of "\<lambda>f. Inl IOError" "init (Some ''missing.csv'') (0::nat)" IOError]
  by (simp add: init_def)

text \<open>
  C8 as stated fails: a failed load on an analyzer that already holds a table returns
  \<open>False\<close> and the table is still there.
\<close>

theorem load_data_failure_keeps_table:
  "fst (load_data (\<lambda>f. Inl IOError)
      \<lparr>data = Some (Table [a_row] True), data_file = Some ''missing.csv'', stdout = [],
       np_state = (0::nat)\<rparr>) = False \<and>
   data (snd (load_data (\<lambda>f. Inl IOError)
      \<lparr>data = Some (Table [a_row] True), data_file = Some ''missing.csv'', stdout = [],
       np_state = (0::nat)\<rparr>)) = Some (Table [a_row] True)"
  by (simp add: load_data_def print_def)

section \<open>The generated table\<close>

text \<open>
  C1, as the code has it. The table that \<open>generate_sample_data\<close> returns is a function
  of the day count, the random source and the clock reading alone: since the generator
  is seeded anew on every call (line 30), neither the state that numpy's generator was
  left in nor anything else in the analyzer has an influence. Two calls with the same
  \<open>days\<close> at the same clock reading return the same result, and leave numpy's
  generator in the same state.
\<close>

theorem generate_sample_data_deterministic:
  "fst (generate_sample_data R now days st) = fst (generate_sample_data R now days st') \<and>
   np_state (snd (generate_sample_data R now days st)) =
     np_state (snd (generate_sample_data R now days st'))"
  by (simp add: generate_sample_data_def print_def Let_def split: sum.splits prod.splits)

text \<open>
  C1 as stated fails: with the same seed and \<open>days = 1\<close>, a call one second later
  returns a different table, because the seconds of \<^verbatim>\<open>datetime.now()\<close> end up in every
  timestamp (lines 33 to 35 and 87).
\<close>

theorem generate_sample_data_reads_clock:
  "fst (generate_sample_data (scripted [1]) a_clock 1 (init None [])) =
     Inr (Table [landing_row a_day 0 0] True) \<and>
   fst (generate_sample_data (scripted [1]) (a_clock\<lparr>dt_second := 16\<rparr>) 1 (init None [])) \<noteq>
     Inr (Table [landing_row a_day 0 0] True)"
  unfolding single_visit_table a_day_def
  by (simp add: a_clock_def landing_row_def add_days_def)

text \<open>
  C2 fails on the code, by a slip of line 86. The \<^verbatim>\<open>session_id\<close> of a visit is the date,
  the hour and a number drawn by \<^verbatim>\<open>np.random.randint(1000, 9999)\<close>: nothing keeps two
  visits of one hour from drawing the same number. Here the hour 0 of a one-day run has
  two visits; both are one-page sessions, of the users 1 and 2, and both draw 1000. The
  two passes through the visit loop append one row each, the two rows get the same
  \<^verbatim>\<open>session_id\<close>, so the rows with that \<^verbatim>\<open>session_id\<close> differ in \<^verbatim>\<open>user_id\<close>, and both
  carry \<^verbatim>\<open>is_bounce\<close> although the \<^verbatim>\<open>session_id\<close> has two rows.
\<close>

theorem session_id_collision:
  "fst (generate_sample_data (scripted [2, 0, 0, 0, 0, 0, 0, 0, 0, 1, 0, 0, 0, 0, 0, 0, 0])
          a_clock 1 (init None [])) =
     Inr (Table [landing_row a_day 0 0, landing_row a_day 0 1] True) \<and>
   session_passes (scripted [2, 0, 0, 0, 0, 0, 0, 0, 0, 1, 0, 0, 0, 0, 0, 0, 0]) a_clock 1 =
     Inr ([[landing_row a_day 0 0], [landing_row a_day 0 1]], []) \<and>
   session_id (landing_row a_day 0 0) = session_id (landing_row a_day 0 1) \<and>
   user_id (landing_row a_day 0 0) = User 1 \<and> user_id (landing_row a_day 0 1) = User 2 \<and>
   is_bounce (landing_row a_day 0 0) \<and> is_bounce (landing_row a_day 0 1) \<and>
   length (session_rows [landing_row a_day 0 0, landing_row a_day 0 1]
             (session_id (landing_row a_day 0 0))) = 2"
  unfolding colliding_table colliding_passes a_day_def
  by (simp add: session_rows_def landing_row_def)

text \<open>
  C3, as the code has it. The rows of every returned table are the rows that the passes
  through the visit loop appended, one simulated session after the other. The rows of one
  pass share their \<^verbatim>\<open>session_id\<close>, and in table order \<^verbatim>\<open>converted\<close> never goes back from
  true to false among them: once a row has \<^verbatim>\<open>converted = true\<close>, every later row of that
  pass has it too. A row has \<^verbatim>\<open>converted = true\<close> only if it or an earlier row of the pass
  is a view of \<^verbatim>\<open>/signup\<close>; the rows before the converting view keep
  \<^verbatim>\<open>converted = false\<close>.
\<close>

theorem generated_conversion_monotone:
  assumes "generate_sample_data R now days st = (Inr t, st')"
  shows "\<exists>bs g. session_passes R now days = Inr (bs, g) \<and> rows t = concat bs \<and>
                (\<forall>b \<in> set bs. conversion_block b)"
proof -
  from generated_table_passes [OF assms] obtain bs g
    where "session_passes R now days = Inr (bs, g)" "rows t = concat bs"
      "\<forall>b \<in> set bs. session_block b \<and> conversion_block b"
    by blast
  then show ?thesis by blast
qed

theorem generated_conversion_monotone_witness:
  "fst (generate_sample_data (scripted [1, 0, 0, 0, 0, 0, 0, 2]) a_clock 1 (init None [])) =
     Inr (Table (signup_rows a_day 0) True) \<and>
   session_passes (scripted [1, 0, 0, 0, 0, 0, 0, 2]) a_clock 1 =
     Inr ([signup_rows a_day 0], []) \<and>
   conversion_block (signup_rows a_day 0)"
proof -
  let ?R = "scripted [1, 0, 0, 0, 0, 0, 0, 2]"
  let ?run = "generate_sample_data ?R a_clock 1 (init None [])"
  have t: "fst ?run = Inr (Table (signup_rows a_day 0) True)"
    unfolding signup_table a_day_def by simp
  have p: "session_passes ?R a_clock 1 = Inr ([signup_rows a_day 0], [])"
    unfolding signup_passes a_day_def by simp
  from t have "?run = (Inr (Table (signup_rows a_day 0) True), snd ?run)"
    by (metis prod.collapse)
  from generated_conversion_monotone [OF this] obtain bs g
    where "session_passes ?R a_clock 1 = Inr (bs, g)" "\<forall>b \<in> set bs. conversion_block b"
    by blast
  then have "conversion_block (signup_rows a_day 0)" using p by simp
  then show ?thesis using t p by simp
qed

text \<open>
  C3 as stated fails: a session that converts on its third page has
  \<^verbatim>\<open>converted = false\<close> on its first two rows and \<^verbatim>\<open>converted = true\<close> on the third.
\<close>

theorem conversion_not_backfilled:
  "fst (generate_sample_data (scripted [1, 0, 0, 0, 0, 0, 0, 2]) a_clock 1 (init None [])) =
     Inr (Table (signup_rows a_day 0) True) \<and>
   map page (signup_rows a_day 0) = [''/home'', ''/products'', ''/signup''] \<and>
   map converted (signup_rows a_day 0) = [False, False, True] \<and>
   \<not> converted_per_session (signup_rows a_day 0)"
  unfolding signup_table a_day_def
  by (simp add: signup_rows_def converted_per_session_def landing_row_def)


section \<open>The next page of a session\<close>

text \<open>
  C10. The session length is one of 1 to 6. Before every page after the first, that is
  after \<open>k\<close> passes through the page loop with \<open>0 < k\<close> and \<open>k\<close> below the session
  length, the loop has not raised, \<open>k\<close> pages have been viewed, so the list of viewed
  pages is not empty and the branch that falls back to the whole catalogue is not taken;
  the candidate list is the first five pages not yet viewed and has exactly five
  entries, so drawing the next page returns a page. The whole session is generated
  without an exception.
\<close>

theorem next_page_draw_never_empty:
  assumes "new_session R d h g = Inr (S, g1)" and "0 < k" and "k < s_num_pages S"
  shows "s_num_pages S \<in> {1..6} \<and>
    (\<exists>st. for_loop (page_view R S) [0..<k]
              \<lparr>viewed_pages = [], conv = False, records = recs, rng = g1\<rparr> = Inr st \<and>
           length (viewed_pages st) = k \<and>
           viewed_pages st \<noteq> [] \<and>
           next_page_candidates (viewed_pages st) =
             take 5 (filter (\<lambda>p. p \<notin> set (viewed_pages st)) pages) \<and>
           length (next_page_candidates (viewed_pages st)) = 5 \<and>
           (\<exists>p g2. next_page R (viewed_pages st) (rng st) = Inr (p, g2))) \<and>
    (\<exists>recs' g'. generate_session R d h (recs, g) = Inr (recs', g'))"
proof -
  have n: "1 \<le> s_num_pages S" "s_num_pages S \<le> 6"
    using new_session_num_pages [OF assms(1)] by simp_all
  then have k: "k \<le> 6" "k \<le> 5" using assms(3) by simp_all
  from page_loop_prefix [OF k(1), of R S recs g1] obtain st
    where st: "for_loop (page_view R S) [0..<k]
             \<lparr>viewed_pages = [], conv = False, records = recs, rng = g1\<rparr> = Inr st"
      and len: "length (viewed_pages st) = k"
    by blast
  have ne: "viewed_pages st \<noteq> []" using len assms(2) by auto
  have le: "length (viewed_pages st) \<le> 5" using len k(2) by simp
  note c = candidates_five [OF ne le]
  note t = next_page_total [OF ne le, of R "rng st"]
  have "s_num_pages S \<in> {1..6}" using n by simp
  then show ?thesis
    using st len ne c t generate_session_total [of R d h recs g] by blast
qed


theorem next_page_draw_never_empty_witness:
  "new_session (scripted []) a_day 0 [0, 0, 0, 0, 0, 0, 2] = Inr (a_session, []) \<and>
   s_num_pages a_session = 3 \<and>
   (\<exists>st. for_loop (page_view (scripted []) a_session) [0..<1]
             \<lparr>viewed_pages = [], conv = False, records = [], rng = []\<rparr> = Inr st \<and>
          length (viewed_pages st) = 1 \<and>
          length (next_page_candidates (viewed_pages st)) = 5)"
proof -
  have ns: "new_session (scripted []) a_day 0 [0, 0, 0, 0, 0, 0, 2] = Inr (a_session, [])"
    by (simp add: new_session_def bind_def np_choice_def np_randint_def choice_p_total
        user_ids_nth thresholds first_items a_session_def)
  have "0 < (1::nat)" and "1 < s_num_pages a_session"
    by (simp_all add: a_session_def)
  from next_page_draw_never_empty [OF ns this, of "[]"] ns show ?thesis
    by (auto simp: a_session_def)
qed

text \<open>
  C6, as the code has it. For a non-empty list of viewed pages and the uniform draw \<open>u\<close>
  of \<^verbatim>\<open>np.random.random()\<close>: after \<^verbatim>\<open>/products\<close> the next page is \<^verbatim>\<open>/signup\<close> when
  \<open>u\<close> is below 0.4, after \<^verbatim>\<open>/pricing\<close> when \<open>u\<close> is below 0.3; in every other case
  it is drawn by \<^verbatim>\<open>np.random.choice\<close> from the first five catalogue pages, in catalogue
  order, that have not been viewed in the session (after the coin, when one was flipped).
  A page drawn that way is a catalogue page not yet viewed. There is no fallback to the
  whole catalogue for a non-empty list of viewed pages.
\<close>

theorem next_page_rule:
  assumes "viewed \<noteq> []" and "random_sample R g = (u, g1)"
  shows
   "(last viewed = ''/products'' \<and> u < fl (2 / 5) \<longrightarrow>
       next_page R viewed g = Inr (''/signup'', g1)) \<and>
    (last viewed = ''/pricing'' \<and> u < fl (3 / 10) \<longrightarrow>
       next_page R viewed g = Inr (''/signup'', g1)) \<and>
    (last viewed = ''/products'' \<and> \<not> u < fl (2 / 5) \<or>
     last viewed = ''/pricing'' \<and> \<not> u < fl (3 / 10) \<longrightarrow>
       next_page R viewed g = np_choice R (take 5 (filter (\<lambda>p. p \<notin> set viewed) pages)) g1) \<and>
    (last viewed \<noteq> ''/products'' \<and> last viewed \<noteq> ''/pricing'' \<longrightarrow>
       next_page R viewed g = np_choice R (take 5 (filter (\<lambda>p. p \<notin> set viewed) pages)) g) \<and>
    (\<forall>g0 p g'. np_choice R (take 5 (filter (\<lambda>p. p \<notin> set viewed) pages)) g0 = Inr (p, g') \<longrightarrow>
       p \<in> set pages \<and> p \<notin> set viewed)"
proof -
  let ?c = "take 5 (filter (\<lambda>p. p \<notin> set viewed) pages)"
  have c: "next_page_candidates viewed = ?c"
    using assms(1) by (simp add: next_page_candidates_def)
  have member: "p \<in> set pages \<and> p \<notin> set viewed" if "np_choice R ?c g0 = Inr (p, g')" for g0 p g'
  proof -
    from that have ne: "?c \<noteq> []" by (auto simp: np_choice_def)
    from that obtain k where "p = ?c ! (k mod length ?c)"
      by (auto simp: np_choice_def split: if_splits prod.splits)
    moreover from ne have "0 < length ?c" by (metis length_greater_0_conv)
    then have "k mod length ?c < length ?c" by (rule mod_less_divisor)
    ultimately have "p \<in> set ?c" by (metis nth_mem)
    then have "p \<in> set (filter (\<lambda>p. p \<notin> set viewed) pages)" by (rule in_set_takeD)
    then show ?thesis by simp
  qed
  have a1: "last viewed = ''/products'' \<and> u < fl (2 / 5) \<longrightarrow>
       next_page R viewed g = Inr (''/signup'', g1)"
    using assms by (simp add: next_page_def)
  have a2: "last viewed = ''/pricing'' \<and> u < fl (3 / 10) \<longrightarrow>
       next_page R viewed g = Inr (''/signup'', g1)"
    using assms by (simp add: next_page_def)
  have a3: "last viewed = ''/products'' \<and> \<not> u < fl (2 / 5) \<or>
     last viewed = ''/pricing'' \<and> \<not> u < fl (3 / 10) \<longrightarrow>
       next_page R viewed g = np_choice R ?c g1"
    using assms by (auto simp: next_page_def c)
  have a4: "last viewed \<noteq> ''/products'' \<and> last viewed \<noteq> ''/pricing'' \<longrightarrow>
       next_page R viewed g = np_choice R ?c g"
    using assms by (simp add: next_page_def c)
  have a5: "\<forall>g0 p g'. np_choice R ?c g0 = Inr (p, g') \<longrightarrow> p \<in> set pages \<and> p \<notin> set viewed"
    using member by blast
  show ?thesis
    using a1 a2 a3 a4 a5 by (intro conjI)
qed

theorem next_page_rule_witness:
  "next_page (scripted []) [''/home'', ''/products''] [] = Inr (''/signup'', []) \<and>
   next_page (scripted []) [''/home''] [] = Inr (''/products'', [])"
proof -
  have r: "random_sample (scripted []) [] = (0, [])" by simp
  have 1: "[''/home'', ''/products''] \<noteq> []" and 2: "[''/home''] \<noteq> []" by simp_all
  have a: "next_page (scripted []) [''/home'', ''/products''] [] = Inr (''/signup'', [])"
    using next_page_rule [OF 1 r, THEN conjunct1] thresholds(2) by simp
  have b: "next_page (scripted []) [''/home''] [] = Inr (''/products'', [])"
    using next_page_rule [OF 2 r, THEN conjunct2, THEN conjunct2, THEN conjunct2, THEN conjunct1]
    by (simp add: np_choice_def pages_def)
  show ?thesis using a b by (rule conjI)
qed

text \<open>
  C6 as stated fails: the draw is not over all pages not yet viewed. After the home
  page the candidates are five of the nine remaining pages, and \<^verbatim>\<open>/faq\<close> is not among
  them; and once all pages are viewed the candidate list is empty, not the catalogue.
\<close>

theorem next_page_candidates_truncated:
  "next_page_candidates [''/home''] =
     [''/products'', ''/about'', ''/contact'', ''/blog'', ''/pricing''] \<and>
   ''/faq'' \<in> set pages - set [''/home''] \<and>
   ''/faq'' \<notin> set (next_page_candidates [''/home'']) \<and>
   next_page_candidates pages = []"
  by (simp add: next_page_candidates_def pages_def)


section \<open>Pages per session\<close>

text \<open>
  C4, as the code has it. For every non-empty table \<open>basic_metrics\<close> returns its
  metrics, and \<^verbatim>\<open>pages_per_session\<close> is the quotient of the row count by the number of
  distinct \<^verbatim>\<open>session_id\<close>s, rounded to the nearest double. So
  \<^verbatim>\<open>pages_per_session\<close> times \<^verbatim>\<open>unique_sessions\<close> is \<^verbatim>\<open>total_pageviews\<close> up to rounding: the
  exact product differs from the row count by at most the row count times \<open>2 ^ -53\<close>,
  and the floating-point product is the row count exactly whenever the number of
  sessions divides the row count (for fewer than \<open>2 ^ 53\<close> rows).
\<close>

theorem pages_per_session_identity:
  assumes "data st = Some (Table rs typed)" and "rs \<noteq> []"
  shows "\<exists>m st'. basic_metrics st = (Inr (Some m), st') \<and>
      total_pageviews m = length rs \<and>
      unique_sessions m = nunique (map session_id rs) \<and>
      0 < unique_sessions m \<and>
      pages_per_session m = fl (of_nat (total_pageviews m) / of_nat (unique_sessions m)) \<and>
      \<bar>pages_per_session m * of_nat (unique_sessions m) - of_nat (total_pageviews m)\<bar>
        \<le> of_nat (total_pageviews m) / 2 ^ 53 \<and>
      (unique_sessions m dvd total_pageviews m \<and> total_pageviews m < 2 ^ 53 \<longrightarrow>
         fmul (pages_per_session m) (of_nat (unique_sessions m)) = of_nat (total_pageviews m))"
proof -
  from compute_metrics_fields [OF assms(2)] obtain m where m: "compute_metrics rs = Inr m"
    and n: "total_pageviews m = length rs"
    and s: "unique_sessions m = nunique (map session_id rs)"
    and p: "pages_per_session m = fl (of_nat (length rs) / of_nat (nunique (map session_id rs)))"
    by blast
  define N :: rat where "N = of_nat (total_pageviews m)"
  define S :: rat where "S = of_nat (unique_sessions m)"
  have s0: "0 < unique_sessions m" using s assms(2) by (simp add: nunique_pos)
  have n0: "0 < total_pageviews m" using n assms(2) by simp
  have S0: "0 < S" and N0: "0 < N" using s0 n0 by (simp_all add: S_def N_def)
  have pps: "pages_per_session m = fl (N / S)" using p n s by (simp add: N_def S_def)
  have "\<bar>fl (N / S) - N / S\<bar> \<le> N / S / 2 ^ 53"
    using S0 N0 by (intro fl_error) simp
  then have "\<bar>fl (N / S) - N / S\<bar> * S \<le> N / S / 2 ^ 53 * S"
    using S0 by (intro mult_right_mono) simp_all
  moreover have "\<bar>fl (N / S) - N / S\<bar> * S = \<bar>fl (N / S) * S - N\<bar>"
  proof -
    have "\<bar>fl (N / S) - N / S\<bar> * S = \<bar>(fl (N / S) - N / S) * S\<bar>"
      using S0 by (simp add: abs_mult)
    also have "(fl (N / S) - N / S) * S = fl (N / S) * S - N"
      using S0 by (simp add: algebra_simps)
    finally show ?thesis .
  qed
  moreover have "N / S / 2 ^ 53 * S = N / 2 ^ 53" using S0 by simp
  ultimately have err: "\<bar>pages_per_session m * S - N\<bar> \<le> N / 2 ^ 53"
    unfolding pps by simp
  have exact: "fmul (pages_per_session m) S = N"
    if d: "unique_sessions m dvd total_pageviews m" and small: "total_pageviews m < 2 ^ 53"
  proof -
    from d obtain q where q: "total_pageviews m = unique_sessions m * q" by (rule dvdE)
    have "q \<le> total_pageviews m" using q s0 by simp
    then have qs: "int q < 2 ^ 53" using small by simp
    have ns: "int (total_pageviews m) < 2 ^ 53" using small by simp
    have "N / S = of_int (int q)" using q S0 by (simp add: N_def S_def)
    then have "fl (N / S) = of_int (int q)" using fl_int [of "int q"] qs by simp
    then have "fmul (pages_per_session m) S = fl (of_int (int q) * S)"
      unfolding pps fmul_def by simp
    also have "of_int (int q) * S = of_int (int (total_pageviews m))"
      using q by (simp add: S_def)
    also have "fl \<dots> = of_int (int (total_pageviews m))" using fl_int [of "int (total_pageviews m)"] ns by simp
    finally show ?thesis by (simp add: N_def)
  qed
  have bm: "basic_metrics st =
     (Inr (Some m), print_metrics m (print (Printed ''=== Basic Website Traffic Metrics ==='') st))"
    using assms(1) m by (rule basic_metrics_computed)
  show ?thesis
    using bm n s s0 pps err exact unfolding N_def S_def by blast
qed

theorem pages_per_session_identity_witness:
  "data \<lparr>data = Some (Table [a_row] True), data_file = None, stdout = [], np_state = ()\<rparr> =
     Some (Table [a_row] True) \<and>
   (\<exists>m st'. basic_metrics \<lparr>data = Some (Table [a_row] True), data_file = None, stdout = [],
                np_state = ()\<rparr> = (Inr (Some m), st') \<and>
      total_pageviews m = 1 \<and> unique_sessions m = 1 \<and>
      fmul (pages_per_session m) (of_nat (unique_sessions m)) = of_nat (total_pageviews m))"
proof -
  let ?st = "\<lparr>data = Some (Table [a_row] True), data_file = None, stdout = [], np_state = ()\<rparr>"
  have d: "data ?st = Some (Table [a_row] True)" by simp
  have ne: "[a_row] \<noteq> []" by simp
  from pages_per_session_identity [OF d ne] obtain m st' where
    "basic_metrics ?st = (Inr (Some m), st')" "total_pageviews m = length [a_row]"
    "unique_sessions m = nunique (map session_id [a_row])"
    "unique_sessions m dvd total_pageviews m \<and> total_pageviews m < 2 ^ 53 \<longrightarrow>
       fmul (pages_per_session m) (of_nat (unique_sessions m)) = of_nat (total_pageviews m)"
    by blast
  then have "basic_metrics ?st = (Inr (Some m), st') \<and> total_pageviews m = 1 \<and>
      unique_sessions m = 1 \<and>
      fmul (pages_per_session m) (of_nat (unique_sessions m)) = of_nat (total_pageviews m)"
    by (simp add: nunique_def)
  then show ?thesis using d by blast
qed

text \<open>
  C4 as stated fails: with 15 rows in 11 sessions, \<^verbatim>\<open>pages_per_session\<close> is the double
  1.3636363636363635 and its product with 11 is the double 14.999999999999998, not 15.
\<close>

theorem pages_per_session_not_exact:
  "(case fst (basic_metrics \<lparr>data = Some (Table fifteen_rows True), data_file = None,
                             stdout = [], np_state = ()\<rparr>) of
      Inr (Some m) \<Rightarrow>
        total_pageviews m = 15 \<and> unique_sessions m = 11 \<and>
        pages_per_session m = 6141272219141585 / 4503599627370496 \<and>
        fmul (pages_per_session m) (of_nat (unique_sessions m)) =
          8444249301319679 / 562949953421312 \<and>
        fmul (pages_per_session m) (of_nat (unique_sessions m)) \<noteq> of_nat (total_pageviews m)
    | _ \<Rightarrow> False)"
proof -
  let ?st = "\<lparr>data = Some (Table fifteen_rows True), data_file = None, stdout = [], np_state = ()\<rparr>"
  have ne: "fifteen_rows \<noteq> []" using fifteen(1) by auto
  from compute_metrics_fields [OF ne] obtain m where m: "compute_metrics fifteen_rows = Inr m"
    and f: "total_pageviews m = 15" "unique_sessions m = 11"
      "pages_per_session m = fl (15 / 11)"
    unfolding fifteen by auto
  have bm: "fst (basic_metrics ?st) = Inr (Some m)"
    using basic_metrics_computed [of ?st fifteen_rows True m] m by simp
  have pps: "pages_per_session m = 6141272219141585 / 4503599627370496"
    using f(3) fifteen_by_eleven(1) by (simp only:)
  have prod: "fmul (pages_per_session m) (of_nat (unique_sessions m)) =
      8444249301319679 / 562949953421312"
    unfolding pps f(2) using fifteen_by_eleven(2) by simp
  have ne: "fmul (pages_per_session m) (of_nat (unique_sessions m)) \<noteq> of_nat (total_pageviews m)"
    unfolding prod f(1) by simp
  have "total_pageviews m = 15 \<and> unique_sessions m = 11 \<and>
        pages_per_session m = 6141272219141585 / 4503599627370496 \<and>
        fmul (pages_per_session m) (of_nat (unique_sessions m)) =
          8444249301319679 / 562949953421312 \<and>
        fmul (pages_per_session m) (of_nat (unique_sessions m)) \<noteq> of_nat (total_pageviews m)"
    using f(1,2) pps prod ne by (intro conjI)
  then show ?thesis
    unfolding bm sum.case option.case .
qed


section \<open>Exit rates\<close>





section \<open>Reports and the table\<close>

text \<open>
  C9. \<open>basic_metrics\<close>, \<open>analyze_traffic_sources\<close> and \<open>popular_pages\<close> leave
  \<^verbatim>\<open>self.data\<close> as it is, and so does \<open>traffic_over_time\<close> for every time unit but
  \<^verbatim>\<open>'day_of_week'\<close>, also when they raise. For \<^verbatim>\<open>'day_of_week'\<close> on a table with
  datetime timestamps the new table is the old one with the \<^verbatim>\<open>day_of_week\<close> column
  set: the same number of rows, every other column as before, and \<^verbatim>\<open>day_of_week\<close>
  holding the day name of each row's timestamp.
\<close>

theorem reports_frame:
  "data (snd (basic_metrics st)) = data st \<and>
   data (snd (analyze_traffic_sources st)) = data st \<and>
   data (snd (popular_pages st)) = data st \<and>
   data (snd (traffic_over_time time_unit st)) =
     (if time_unit = ''day_of_week''
      then (case data st of
              Some (Table rs True) \<Rightarrow> Some (Table (with_day_of_week rs) True)
            | _ \<Rightarrow> data st)
      else data st) \<and>
   length (with_day_of_week t) = length t \<and>
   map timestamp (with_day_of_week t) = map timestamp t \<and>
   map date (with_day_of_week t) = map date t \<and>
   map hour (with_day_of_week t) = map hour t \<and>
   map user_id (with_day_of_week t) = map user_id t \<and>
   map session_id (with_day_of_week t) = map session_id t \<and>
   map page (with_day_of_week t) = map page t \<and>
   map time_on_page (with_day_of_week t) = map time_on_page t \<and>
   map source (with_day_of_week t) = map source t \<and>
   map device (with_day_of_week t) = map device t \<and>
   map country (with_day_of_week t) = map country t \<and>
   map is_bounce (with_day_of_week t) = map is_bounce t \<and>
   map converted (with_day_of_week t) = map converted t \<and>
   map day_of_week (with_day_of_week t) = map (\<lambda>r. Some (day_name (timestamp r))) t"
proof -
  have "data (snd (basic_metrics st)) = data st"
    by (simp add: basic_metrics_def print_def print_metrics_def Let_def
        split: option.splits table.splits sum.splits)
  moreover have "data (snd (analyze_traffic_sources st)) = data st"
    by (simp add: analyze_traffic_sources_def print_def split: option.splits table.splits)
  moreover have "data (snd (popular_pages st)) = data st"
    by (simp add: popular_pages_def print_def split: option.splits table.splits)
  moreover have "data (snd (traffic_over_time time_unit st)) =
     (if time_unit = ''day_of_week''
      then (case data st of
              Some (Table rs True) \<Rightarrow> Some (Table (with_day_of_week rs) True)
            | _ \<Rightarrow> data st)
      else data st)"
    by (simp add: traffic_over_time_def print_def split: option.splits table.splits bool.splits)
  ultimately show ?thesis
    by (simp add: with_day_of_week_def comp_def)
qed

end
